theory Spec2Isabelle
  imports Main "HOL-Library.Word" "HOL-Library.Monad_Syntax"
begin

section \<open>Zpng: data model\<close>

text \<open>
  A shallow embedding of \<^verbatim>\<open>zpng.cpp\<close>. Bytes are 8-bit words, so \<open>+\<close> and \<open>-\<close> wrap as
  \<^verbatim>\<open>uint8_t\<close> arithmetic does. A buffer is the list of the bytes of its memory region and a
  pointer into it is an offset. A read or write outside the region is undefined behaviour
  in C; here it is the value \<open>None\<close>, which every caller propagates.
  Values of type \<^verbatim>\<open>unsigned\<close> are natural numbers, with the 32-bit wrap-around written out
  (\<open>u32\<close>) wherever the source computes one.
\<close>

type_synonym byte = "8 word"

definition u32 :: "nat \<Rightarrow> nat" where
  "u32 n = n mod 2 ^ 32"

definition rd :: "byte list \<Rightarrow> nat \<Rightarrow> byte option" where
  "rd mem i = (if i < length mem then Some (mem ! i) else None)"

definition wr :: "byte list \<Rightarrow> nat \<Rightarrow> byte \<Rightarrow> byte list option" where
  "wr mem i v = (if i < length mem then Some (mem[i := v]) else None)"

text \<open>
  Modelled from the spec: the declarations of \<^verbatim>\<open>ZPNG_Buffer\<close> and \<^verbatim>\<open>ZPNG_ImageData\<close> live in
  \<^verbatim>\<open>zpng.h\<close>, which is not part of the sources; the fields are the ones \<^verbatim>\<open>zpng.cpp\<close> reads and
  writes. \<open>Data = None\<close> is the null pointer, \<open>Some mem\<close> points to the region \<open>mem\<close>.
\<close>

record ZPNG_Buffer =
  Data :: "byte list option"
  Bytes :: nat

record ZPNG_ImageData =
  Buffer :: ZPNG_Buffer
  BytesPerChannel :: nat
  Channels :: nat
  WidthPixels :: nat
  HeightPixels :: nat
  StrideBytes :: nat
  IsIFrame :: nat

text \<open>The region behind \<^verbatim>\<open>imageData->Buffer.Data\<close>; nothing can be read through a null pointer.\<close>

definition pixels :: "ZPNG_ImageData \<Rightarrow> byte list" where
  "pixels imageData = (case Data (Buffer imageData) of None \<Rightarrow> [] | Some mem \<Rightarrow> mem)"

section \<open>Loops\<close>

text \<open>
  \<^verbatim>\<open>for (unsigned i = 0; i < n; ++i) body\<close>: the body runs for \<open>i = 0, \<dots>, n - 1\<close> in
  this order and the loop stops at the first fault.
\<close>

primrec for_upto :: "nat \<Rightarrow> (nat \<Rightarrow> 's \<Rightarrow> 's option) \<Rightarrow> 's \<Rightarrow> 's option" where
  "for_upto 0 body s = Some s"
| "for_upto (Suc n) body s = (case for_upto n body s of None \<Rightarrow> None | Some s' \<Rightarrow> body n s')"

text \<open>
  \<^verbatim>\<open>for (unsigned x = 0; x < width; x += 2)\<close> runs its body \<open>(width + 1) div 2\<close> times.
\<close>

definition half_steps :: "nat \<Rightarrow> nat" where
  "half_steps n = (n + 1) div 2"

section \<open>Intra filter, generic\<close>

definition paf_channel ::
  "byte list \<Rightarrow> nat \<Rightarrow> nat \<Rightarrow> nat \<Rightarrow> byte list \<times> byte list \<Rightarrow> (byte list \<times> byte list) option" where
  "paf_channel input ip op i = (\<lambda>(prev, out). do {
     a \<leftarrow> rd input (ip + i);
     out' \<leftarrow> wr out (op + i) (a - prev ! i);
     Some (prev[i := a], out') })"

definition paf_pixel ::
  "nat \<Rightarrow> byte list \<Rightarrow> nat \<times> nat \<times> byte list \<times> byte list \<Rightarrow> (nat \<times> nat \<times> byte list \<times> byte list) option" where
  "paf_pixel k input = (\<lambda>(ip, op, prev, out). do {
     (prev', out') \<leftarrow> for_upto k (paf_channel input ip op) (prev, out);
     Some (ip + k, op + k, prev', out') })"

definition paf_row ::
  "nat \<Rightarrow> nat \<Rightarrow> byte list \<Rightarrow> nat \<times> nat \<times> byte list \<Rightarrow> (nat \<times> nat \<times> byte list) option" where
  "paf_row k width input = (\<lambda>(ip, op, out). do {
     (ip', op', prev', out') \<leftarrow> for_upto width (\<lambda>x. paf_pixel k input) (ip, op, replicate k 0, out);
     Some (ip', op', out') })"

definition PackAndFilter :: "nat \<Rightarrow> ZPNG_ImageData \<Rightarrow> byte list \<Rightarrow> byte list option" where
  "PackAndFilter kChannels imageData output = do {
     (ip, op, out) \<leftarrow> for_upto (HeightPixels imageData)
        (\<lambda>y. paf_row kChannels (WidthPixels imageData) (pixels imageData)) (0, 0, output);
     Some out }"

definition uau_channel ::
  "byte list \<Rightarrow> nat \<Rightarrow> nat \<Rightarrow> nat \<Rightarrow> byte list \<times> byte list \<Rightarrow> (byte list \<times> byte list) option" where
  "uau_channel input ip op i = (\<lambda>(prev, out). do {
     d \<leftarrow> rd input (ip + i);
     out' \<leftarrow> wr out (op + i) (d + prev ! i);
     Some (prev[i := d + prev ! i], out') })"

definition uau_pixel ::
  "nat \<Rightarrow> byte list \<Rightarrow> nat \<times> nat \<times> byte list \<times> byte list \<Rightarrow> (nat \<times> nat \<times> byte list \<times> byte list) option" where
  "uau_pixel k input = (\<lambda>(ip, op, prev, out). do {
     (prev', out') \<leftarrow> for_upto k (uau_channel input ip op) (prev, out);
     Some (ip + k, op + k, prev', out') })"

definition uau_row ::
  "nat \<Rightarrow> nat \<Rightarrow> byte list \<Rightarrow> nat \<times> nat \<times> byte list \<Rightarrow> (nat \<times> nat \<times> byte list) option" where
  "uau_row k width input = (\<lambda>(ip, op, out). do {
     (ip', op', prev', out') \<leftarrow> for_upto width (\<lambda>x. uau_pixel k input) (ip, op, replicate k 0, out);
     Some (ip', op', out') })"

text \<open>
  The unfilters write through \<^verbatim>\<open>imageData->Buffer.Data\<close>; the model returns the new contents
  of that region.
\<close>

definition UnpackAndUnfilter :: "nat \<Rightarrow> byte list \<Rightarrow> ZPNG_ImageData \<Rightarrow> byte list option" where
  "UnpackAndUnfilter kChannels input imageData = do {
     (ip, op, out) \<leftarrow> for_upto (HeightPixels imageData)
        (\<lambda>y. uau_row kChannels (WidthPixels imageData) input) (0, 0, pixels imageData);
     Some out }"

section \<open>Intra filter, Bayer XGGY\<close>

definition xggy_even ::
  "byte list \<Rightarrow> nat \<times> nat \<times> nat \<times> byte \<times> byte \<times> byte list
     \<Rightarrow> (nat \<times> nat \<times> nat \<times> byte \<times> byte \<times> byte list) option" where
  "xggy_even input = (\<lambda>(ip, output_r, output_g, prev0, prev1, out). do {
     r \<leftarrow> rd input ip;
     g \<leftarrow> rd input (ip + 1);
     out1 \<leftarrow> wr out output_r (r - prev0);
     out2 \<leftarrow> wr out1 output_g (g - prev1);
     Some (ip + 2, output_r + 1, output_g + 1, r, g, out2) })"

definition xggy_odd ::
  "byte list \<Rightarrow> nat \<times> nat \<times> nat \<times> byte \<times> byte \<times> byte list
     \<Rightarrow> (nat \<times> nat \<times> nat \<times> byte \<times> byte \<times> byte list) option" where
  "xggy_odd input = (\<lambda>(ip, output_b, output_g, prev0, prev1, out). do {
     g \<leftarrow> rd input ip;
     b \<leftarrow> rd input (ip + 1);
     out1 \<leftarrow> wr out output_b (b - prev1);
     out2 \<leftarrow> wr out1 output_g (g - prev0);
     Some (ip + 2, output_b + 1, output_g + 1, g, b, out2) })"

definition xggy_rows ::
  "nat \<Rightarrow> byte list \<Rightarrow> nat \<times> nat \<times> nat \<times> nat \<times> byte list
     \<Rightarrow> (nat \<times> nat \<times> nat \<times> nat \<times> byte list) option" where
  "xggy_rows width input = (\<lambda>(ip, output_r, output_b, output_g, out). do {
     (ip1, output_r1, output_g1, p0, p1, out1) \<leftarrow>
        for_upto (half_steps width) (\<lambda>x. xggy_even input) (ip, output_r, output_g, 0, 0, out);
     (ip2, output_b2, output_g2, q0, q1, out2) \<leftarrow>
        for_upto (half_steps width) (\<lambda>x. xggy_odd input) (ip1, output_b, output_g1, 0, 0, out1);
     Some (ip2, output_r1, output_b2, output_g2, out2) })"

definition PackAndFilterXGGY :: "ZPNG_ImageData \<Rightarrow> byte list \<Rightarrow> byte list option" where
  "PackAndFilterXGGY imageData output =
    (let height = HeightPixels imageData; width = WidthPixels imageData;
         planeBytes = u32 (width * height) div 4
     in do {
       (ip, output_r, output_b, output_g, out) \<leftarrow>
          for_upto (half_steps height) (\<lambda>row. xggy_rows width (pixels imageData))
            (0, 0, planeBytes, u32 (planeBytes * 2), output);
       Some out })"

definition unxggy_even ::
  "byte list \<Rightarrow> nat \<times> nat \<times> nat \<times> byte \<times> byte \<times> byte list
     \<Rightarrow> (nat \<times> nat \<times> nat \<times> byte \<times> byte \<times> byte list) option" where
  "unxggy_even input = (\<lambda>(input_r, input_g, op, prev0, prev1, out). do {
     r \<leftarrow> rd input input_r;
     g \<leftarrow> rd input input_g;
     out1 \<leftarrow> wr out op (r + prev0);
     out2 \<leftarrow> wr out1 (op + 1) (g + prev1);
     Some (input_r + 1, input_g + 1, op + 2, r + prev0, g + prev1, out2) })"

definition unxggy_odd ::
  "byte list \<Rightarrow> nat \<times> nat \<times> nat \<times> byte \<times> byte \<times> byte list
     \<Rightarrow> (nat \<times> nat \<times> nat \<times> byte \<times> byte \<times> byte list) option" where
  "unxggy_odd input = (\<lambda>(input_b, input_g, op, prev0, prev1, out). do {
     g \<leftarrow> rd input input_g;
     b \<leftarrow> rd input input_b;
     out1 \<leftarrow> wr out op (g + prev0);
     out2 \<leftarrow> wr out1 (op + 1) (b + prev1);
     Some (input_b + 1, input_g + 1, op + 2, g + prev0, b + prev1, out2) })"

definition unxggy_rows ::
  "nat \<Rightarrow> byte list \<Rightarrow> nat \<times> nat \<times> nat \<times> nat \<times> byte list
     \<Rightarrow> (nat \<times> nat \<times> nat \<times> nat \<times> byte list) option" where
  "unxggy_rows width input = (\<lambda>(input_r, input_b, input_g, op, out). do {
     (input_r1, input_g1, op1, p0, p1, out1) \<leftarrow>
        for_upto (half_steps width) (\<lambda>x. unxggy_even input) (input_r, input_g, op, 0, 0, out);
     (input_b2, input_g2, op2, q0, q1, out2) \<leftarrow>
        for_upto (half_steps width) (\<lambda>x. unxggy_odd input) (input_b, input_g1, op1, 0, 0, out1);
     Some (input_r1, input_b2, input_g2, op2, out2) })"

definition UnpackAndUnfilterXGGY :: "byte list \<Rightarrow> ZPNG_ImageData \<Rightarrow> byte list option" where
  "UnpackAndUnfilterXGGY input imageData =
    (let height = HeightPixels imageData; width = WidthPixels imageData;
         planeBytes = u32 (width * height) div 4
     in do {
       (input_r, input_b, input_g, op, out) \<leftarrow>
          for_upto (half_steps height) (\<lambda>y. unxggy_rows width input)
            (0, planeBytes, u32 (planeBytes * 2), 0, pixels imageData);
       Some out })"

section \<open>Intra filter, RGB and RGBA\<close>

definition paf3_pixel ::
  "byte list \<Rightarrow> nat \<times> nat \<times> nat \<times> nat \<times> byte \<times> byte \<times> byte \<times> byte list
     \<Rightarrow> (nat \<times> nat \<times> nat \<times> nat \<times> byte \<times> byte \<times> byte \<times> byte list) option" where
  "paf3_pixel input = (\<lambda>(ip, output_y, output_u, output_v, prev0, prev1, prev2, out). do {
     r0 \<leftarrow> rd input ip;
     g0 \<leftarrow> rd input (ip + 1);
     b0 \<leftarrow> rd input (ip + 2);
     let r = r0 - prev0;
     let g = g0 - prev1;
     let b = b0 - prev2;
     let y = b;
     let u = g - b;
     let v = g - r;
     out1 \<leftarrow> wr out output_y y;
     out2 \<leftarrow> wr out1 output_u u;
     out3 \<leftarrow> wr out2 output_v v;
     Some (ip + 3, output_y + 1, output_u + 1, output_v + 1, r0, g0, b0, out3) })"

definition paf3_row ::
  "nat \<Rightarrow> byte list \<Rightarrow> nat \<times> nat \<times> nat \<times> nat \<times> byte list
     \<Rightarrow> (nat \<times> nat \<times> nat \<times> nat \<times> byte list) option" where
  "paf3_row width input = (\<lambda>(ip, output_y, output_u, output_v, out). do {
     (ip', output_y', output_u', output_v', p0, p1, p2, out') \<leftarrow>
        for_upto width (\<lambda>x. paf3_pixel input) (ip, output_y, output_u, output_v, 0, 0, 0, out);
     Some (ip', output_y', output_u', output_v', out') })"

definition PackAndFilter3 :: "ZPNG_ImageData \<Rightarrow> byte list \<Rightarrow> byte list option" where
  "PackAndFilter3 imageData output =
    (let height = HeightPixels imageData; width = WidthPixels imageData;
         planeBytes = u32 (width * height)
     in do {
       (ip, output_y, output_u, output_v, out) \<leftarrow>
          for_upto height (\<lambda>row. paf3_row width (pixels imageData))
            (0, 0, planeBytes, u32 (planeBytes * 2), output);
       Some out })"

definition uau3_pixel ::
  "byte list \<Rightarrow> nat \<times> nat \<times> nat \<times> nat \<times> byte \<times> byte \<times> byte \<times> byte list
     \<Rightarrow> (nat \<times> nat \<times> nat \<times> nat \<times> byte \<times> byte \<times> byte \<times> byte list) option" where
  "uau3_pixel input = (\<lambda>(input_y, input_u, input_v, op, prev0, prev1, prev2, out). do {
     y \<leftarrow> rd input input_y;
     u \<leftarrow> rd input input_u;
     v \<leftarrow> rd input input_v;
     let B = y;
     let G = u + B;
     let r = G - v + prev0;
     let g = G + prev1;
     let b = B + prev2;
     out1 \<leftarrow> wr out op r;
     out2 \<leftarrow> wr out1 (op + 1) g;
     out3 \<leftarrow> wr out2 (op + 2) b;
     Some (input_y + 1, input_u + 1, input_v + 1, op + 3, r, g, b, out3) })"

definition uau3_row ::
  "nat \<Rightarrow> byte list \<Rightarrow> nat \<times> nat \<times> nat \<times> nat \<times> byte list
     \<Rightarrow> (nat \<times> nat \<times> nat \<times> nat \<times> byte list) option" where
  "uau3_row width input = (\<lambda>(input_y, input_u, input_v, op, out). do {
     (input_y', input_u', input_v', op', p0, p1, p2, out') \<leftarrow>
        for_upto width (\<lambda>x. uau3_pixel input) (input_y, input_u, input_v, op, 0, 0, 0, out);
     Some (input_y', input_u', input_v', op', out') })"

definition UnpackAndUnfilter3 :: "byte list \<Rightarrow> ZPNG_ImageData \<Rightarrow> byte list option" where
  "UnpackAndUnfilter3 input imageData =
    (let height = HeightPixels imageData; width = WidthPixels imageData;
         planeBytes = u32 (width * height)
     in do {
       (input_y, input_u, input_v, op, out) \<leftarrow>
          for_upto height (\<lambda>row. uau3_row width input)
            (0, planeBytes, u32 (planeBytes * 2), 0, pixels imageData);
       Some out })"

definition paf4_pixel ::
  "byte list \<Rightarrow> nat \<times> nat \<times> nat \<times> nat \<times> nat \<times> byte \<times> byte \<times> byte \<times> byte \<times> byte list
     \<Rightarrow> (nat \<times> nat \<times> nat \<times> nat \<times> nat \<times> byte \<times> byte \<times> byte \<times> byte \<times> byte list) option" where
  "paf4_pixel input =
    (\<lambda>(ip, output_y, output_u, output_v, output_a, prev0, prev1, prev2, prev3, out). do {
     r0 \<leftarrow> rd input ip;
     g0 \<leftarrow> rd input (ip + 1);
     b0 \<leftarrow> rd input (ip + 2);
     a0 \<leftarrow> rd input (ip + 3);
     let r = r0 - prev0;
     let g = g0 - prev1;
     let b = b0 - prev2;
     let a = a0 - prev3;
     let y = b;
     let u = g - b;
     let v = g - r;
     out1 \<leftarrow> wr out output_y y;
     out2 \<leftarrow> wr out1 output_u u;
     out3 \<leftarrow> wr out2 output_v v;
     out4 \<leftarrow> wr out3 output_a a;
     Some (ip + 4, output_y + 1, output_u + 1, output_v + 1, output_a + 1, r0, g0, b0, a0, out4) })"

definition paf4_row ::
  "nat \<Rightarrow> byte list \<Rightarrow> nat \<times> nat \<times> nat \<times> nat \<times> nat \<times> byte list
     \<Rightarrow> (nat \<times> nat \<times> nat \<times> nat \<times> nat \<times> byte list) option" where
  "paf4_row width input = (\<lambda>(ip, output_y, output_u, output_v, output_a, out). do {
     (ip', output_y', output_u', output_v', output_a', p0, p1, p2, p3, out') \<leftarrow>
        for_upto width (\<lambda>x. paf4_pixel input)
          (ip, output_y, output_u, output_v, output_a, 0, 0, 0, 0, out);
     Some (ip', output_y', output_u', output_v', output_a', out') })"

definition PackAndFilter4 :: "ZPNG_ImageData \<Rightarrow> byte list \<Rightarrow> byte list option" where
  "PackAndFilter4 imageData output =
    (let height = HeightPixels imageData; width = WidthPixels imageData;
         planeBytes = u32 (width * height)
     in do {
       (ip, output_y, output_u, output_v, output_a, out) \<leftarrow>
          for_upto height (\<lambda>row. paf4_row width (pixels imageData))
            (0, 0, planeBytes, u32 (planeBytes * 2), u32 (planeBytes * 3), output);
       Some out })"

definition uau4_pixel ::
  "byte list \<Rightarrow> nat \<times> nat \<times> nat \<times> nat \<times> nat \<times> byte \<times> byte \<times> byte \<times> byte \<times> byte list
     \<Rightarrow> (nat \<times> nat \<times> nat \<times> nat \<times> nat \<times> byte \<times> byte \<times> byte \<times> byte \<times> byte list) option" where
  "uau4_pixel input =
    (\<lambda>(input_y, input_u, input_v, input_a, op, prev0, prev1, prev2, prev3, out). do {
     y \<leftarrow> rd input input_y;
     u \<leftarrow> rd input input_u;
     v \<leftarrow> rd input input_v;
     a0 \<leftarrow> rd input input_a;
     let B = y;
     let G = u + B;
     let r = G - v + prev0;
     let g = G + prev1;
     let b = B + prev2;
     let a = a0 + prev3;
     out1 \<leftarrow> wr out op r;
     out2 \<leftarrow> wr out1 (op + 1) g;
     out3 \<leftarrow> wr out2 (op + 2) b;
     out4 \<leftarrow> wr out3 (op + 3) a;
     Some (input_y + 1, input_u + 1, input_v + 1, input_a + 1, op + 4, r, g, b, a, out4) })"

definition uau4_row ::
  "nat \<Rightarrow> byte list \<Rightarrow> nat \<times> nat \<times> nat \<times> nat \<times> nat \<times> byte list
     \<Rightarrow> (nat \<times> nat \<times> nat \<times> nat \<times> nat \<times> byte list) option" where
  "uau4_row width input = (\<lambda>(input_y, input_u, input_v, input_a, op, out). do {
     (input_y', input_u', input_v', input_a', op', p0, p1, p2, p3, out') \<leftarrow>
        for_upto width (\<lambda>x. uau4_pixel input)
          (input_y, input_u, input_v, input_a, op, 0, 0, 0, 0, out);
     Some (input_y', input_u', input_v', input_a', op', out') })"

definition UnpackAndUnfilter4 :: "byte list \<Rightarrow> ZPNG_ImageData \<Rightarrow> byte list option" where
  "UnpackAndUnfilter4 input imageData =
    (let height = HeightPixels imageData; width = WidthPixels imageData;
         planeBytes = u32 (width * height)
     in do {
       (input_y, input_u, input_v, input_a, op, out) \<leftarrow>
          for_upto height (\<lambda>row. uau4_row width input)
            (0, planeBytes, u32 (planeBytes * 2), u32 (planeBytes * 3), 0, pixels imageData);
       Some out })"

section \<open>Inter filter\<close>

text \<open>
  A loop whose body can leave the function: the body either faults, returns a value from
  the enclosing function, or hands the next state to the loop.
\<close>

datatype ('s, 'r) flow = Fault | Return 'r | Next 's

primrec for_upto_ret :: "nat \<Rightarrow> (nat \<Rightarrow> 's \<Rightarrow> ('s, 'r) flow) \<Rightarrow> 's \<Rightarrow> ('s, 'r) flow" where
  "for_upto_ret 0 body s = Next s"
| "for_upto_ret (Suc n) body s =
     (case for_upto_ret n body s of Fault \<Rightarrow> Fault | Return r \<Rightarrow> Return r | Next s' \<Rightarrow> body n s')"

text \<open>
  One channel of one pixel. \<open>Return out\<close> is the saturation escape: the Bayer filter has
  rewritten the output from its start and the function returns \<open>-1\<close>.
\<close>

definition pafv_channel ::
  "byte list \<Rightarrow> ZPNG_ImageData \<Rightarrow> nat \<Rightarrow> nat \<Rightarrow> nat \<Rightarrow> nat \<Rightarrow> nat \<times> nat \<times> byte list
     \<Rightarrow> (nat \<times> nat \<times> byte list, byte list) flow" where
  "pafv_channel ref imageData rp ip op i = (\<lambda>(overflow, overflowCount, out).
     case rd (pixels imageData) (ip + i) of None \<Rightarrow> Fault | Some a \<Rightarrow>
     case rd ref (rp + i) of None \<Rightarrow> Fault | Some r \<Rightarrow>
       let diff = uint a - uint r in
       if diff > 127 \<or> diff < - 127 then
         if overflowCount = 1000 then
           (case PackAndFilterXGGY imageData out of None \<Rightarrow> Fault | Some out' \<Rightarrow> Return out')
         else
           (case wr out (op + i) 0x80 of None \<Rightarrow> Fault | Some out1 \<Rightarrow>
            case wr out1 overflow a of None \<Rightarrow> Fault | Some out2 \<Rightarrow>
              Next (overflow + 1, overflowCount + 1, out2))
       else
         (case wr out (op + i) (word_of_int diff) of None \<Rightarrow> Fault | Some out1 \<Rightarrow>
            Next (overflow, overflowCount, out1)))"

definition pafv_pixel ::
  "nat \<Rightarrow> byte list \<Rightarrow> ZPNG_ImageData \<Rightarrow> nat \<times> nat \<times> nat \<times> nat \<times> nat \<times> byte list
     \<Rightarrow> (nat \<times> nat \<times> nat \<times> nat \<times> nat \<times> byte list, byte list) flow" where
  "pafv_pixel k ref imageData = (\<lambda>(rp, ip, op, overflow, overflowCount, out).
     case for_upto_ret k (pafv_channel ref imageData rp ip op) (overflow, overflowCount, out) of
       Fault \<Rightarrow> Fault
     | Return r \<Rightarrow> Return r
     | Next (overflow', overflowCount', out') \<Rightarrow>
         Next (rp + k, ip + k, op + k, overflow', overflowCount', out'))"

text \<open>The result is the packing buffer after the call and the value returned.\<close>

definition PackAndFilterVideo ::
  "nat \<Rightarrow> ZPNG_ImageData \<Rightarrow> ZPNG_ImageData \<Rightarrow> byte list \<Rightarrow> (byte list \<times> int) option" where
  "PackAndFilterVideo kChannels refData imageData output =
    (let height = HeightPixels imageData; width = WidthPixels imageData in
     case for_upto_ret height
            (\<lambda>y. for_upto_ret width (\<lambda>x. pafv_pixel kChannels (pixels refData) imageData))
            (0, 0, 0, u32 (u32 (height * width) * kChannels), 0, output) of
       Fault \<Rightarrow> None
     | Return out \<Rightarrow> Some (out, - 1)
     | Next (rp, ip, op, overflow, overflowCount, out) \<Rightarrow> Some (out, int overflowCount))"

definition uauv_channel ::
  "byte list \<Rightarrow> byte list \<Rightarrow> nat \<Rightarrow> nat \<Rightarrow> nat \<Rightarrow> nat \<Rightarrow> nat \<times> byte list
     \<Rightarrow> (nat \<times> byte list) option" where
  "uauv_channel ref input rp ip op i = (\<lambda>(overflow, out). do {
     d \<leftarrow> rd input (ip + i);
     if d = 0x80 then do {
       v \<leftarrow> rd input overflow;
       out' \<leftarrow> wr out (op + i) v;
       Some (overflow + 1, out') }
     else do {
       r \<leftarrow> rd ref (rp + i);
       out' \<leftarrow> wr out (op + i) (r + d);
       Some (overflow, out') } })"

definition uauv_pixel ::
  "nat \<Rightarrow> byte list \<Rightarrow> byte list \<Rightarrow> nat \<times> nat \<times> nat \<times> nat \<times> byte list
     \<Rightarrow> (nat \<times> nat \<times> nat \<times> nat \<times> byte list) option" where
  "uauv_pixel k ref input = (\<lambda>(rp, ip, op, overflow, out). do {
     (overflow', out') \<leftarrow> for_upto k (uauv_channel ref input rp ip op) (overflow, out);
     Some (rp + k, ip + k, op + k, overflow', out') })"

definition UnpackAndUnfilterVideo ::
  "nat \<Rightarrow> ZPNG_ImageData \<Rightarrow> byte list \<Rightarrow> ZPNG_ImageData \<Rightarrow> byte list option" where
  "UnpackAndUnfilterVideo kChannels refData input imageData =
    (let height = HeightPixels imageData; width = WidthPixels imageData in do {
       (rp, ip, op, overflow, out) \<leftarrow>
          for_upto height (\<lambda>y. for_upto width (\<lambda>x. uauv_pixel kChannels (pixels refData) input))
            (0, 0, 0, u32 (u32 (height * width) * kChannels), pixels imageData);
       Some out })"

section \<open>The entropy coder and the host\<close>

text \<open>
  The zstd library is not part of the sources: its three entry points are parameters of
  the codec, with the destination capacity as first argument and \<open>None\<close> for a result that
  \<^verbatim>\<open>ZSTD_isError\<close> accepts. The header is stored through a struct pointer, in the byte
  order of the host, which is a parameter too. Calls are modelled without a compression
  context (\<^verbatim>\<open>context = nullptr\<close>), so \<^verbatim>\<open>ZSTD_compress\<close> is the coder used, and every
  allocation succeeds.
\<close>

datatype endian = LittleEndian | BigEndian

record env =
  byte_order :: endian
  ZSTD_compressBound :: "nat \<Rightarrow> nat"
  ZSTD_compress :: "nat \<Rightarrow> byte list \<Rightarrow> byte list option"
  ZSTD_decompress :: "nat \<Rightarrow> byte list \<Rightarrow> byte list option"

definition store16 :: "endian \<Rightarrow> nat \<Rightarrow> byte list" where
  "store16 e v = (case e of
      LittleEndian \<Rightarrow> [of_nat (v mod 256), of_nat (v div 256 mod 256)]
    | BigEndian \<Rightarrow> [of_nat (v div 256 mod 256), of_nat (v mod 256)])"

definition load16 :: "endian \<Rightarrow> byte \<Rightarrow> byte \<Rightarrow> nat" where
  "load16 e b0 b1 = (case e of
      LittleEndian \<Rightarrow> unat b0 + 256 * unat b1
    | BigEndian \<Rightarrow> 256 * unat b0 + unat b1)"

definition ZPNG_HEADER_MAGIC :: nat where
  "ZPNG_HEADER_MAGIC = 0xFBF8"

definition ZPNG_VIDEO_HEADER_MAGIC :: nat where
  "ZPNG_VIDEO_HEADER_MAGIC = 0xF8FB"

definition ZPNG_HEADER_OVERHEAD_BYTES :: nat where
  "ZPNG_HEADER_OVERHEAD_BYTES = 8"

text \<open>
  The eight bytes of a \<^verbatim>\<open>ZPNG_Header\<close> whose fields are set from a magic and an image: the
  casts to \<^verbatim>\<open>uint16_t\<close> and \<^verbatim>\<open>uint8_t\<close> keep the low bits.
\<close>

definition ZPNG_Header :: "endian \<Rightarrow> nat \<Rightarrow> ZPNG_ImageData \<Rightarrow> byte list" where
  "ZPNG_Header e magic imageData =
     store16 e magic @ store16 e (WidthPixels imageData) @ store16 e (HeightPixels imageData)
       @ [of_nat (Channels imageData), of_nat (BytesPerChannel imageData)]"

text \<open>Copying \<open>src\<close> into a region at an offset.\<close>

definition blit :: "byte list \<Rightarrow> nat \<Rightarrow> byte list \<Rightarrow> byte list option" where
  "blit mem off src =
     (if off + length src \<le> length mem
      then Some (take off mem @ src @ drop (off + length src) mem) else None)"

section \<open>API\<close>

definition pixelCount_of :: "ZPNG_ImageData \<Rightarrow> nat" where
  "pixelCount_of imageData = u32 (WidthPixels imageData * HeightPixels imageData)"

definition pixelBytes_of :: "ZPNG_ImageData \<Rightarrow> nat" where
  "pixelBytes_of imageData =
     (if BytesPerChannel imageData > 8 then Channels imageData
      else u32 (BytesPerChannel imageData * Channels imageData))"

definition byteCount_of :: "ZPNG_ImageData \<Rightarrow> nat" where
  "byteCount_of imageData = u32 (pixelBytes_of imageData * pixelCount_of imageData)"


text \<open>
  Pass 1 of the encoder: the filter chosen by the reference, the Bayer sentinel and the
  bytes per pixel, applied to the packing buffer. The result is the buffer and
  \<^verbatim>\<open>overflowCount\<close>. A \<^verbatim>\<open>switch\<close> without a matching case leaves the buffer as it is.
\<close>

definition pack_pass ::
  "ZPNG_ImageData option \<Rightarrow> ZPNG_ImageData \<Rightarrow> byte list \<Rightarrow> (byte list \<times> int) option" where
  "pack_pass refData imageData packing =
    (let pixelBytes = pixelBytes_of imageData in
     case refData of
       Some r \<Rightarrow>
         if pixelBytes \<in> {1, 2, 3, 4, 5, 6, 7, 8}
         then PackAndFilterVideo pixelBytes r imageData packing
         else Some (packing, 0)
     | None \<Rightarrow>
         if BytesPerChannel imageData > 8
         then map_option (\<lambda>out. (out, 0)) (PackAndFilterXGGY imageData packing)
         else if pixelBytes = 3 then map_option (\<lambda>out. (out, 0)) (PackAndFilter3 imageData packing)
         else if pixelBytes = 4 then map_option (\<lambda>out. (out, 0)) (PackAndFilter4 imageData packing)
         else if pixelBytes \<in> {1, 2, 5, 6, 7, 8}
         then map_option (\<lambda>out. (out, 0)) (PackAndFilter pixelBytes imageData packing)
         else Some (packing, 0))"

text \<open>
  The result is the value returned and \<^verbatim>\<open>*bufferOutput\<close> after the call. Every path of the
  source ends in \<^verbatim>\<open>return 0\<close>.
\<close>

definition ZPNG_CompressVideoToBuffer ::
  "env \<Rightarrow> ZPNG_ImageData option \<Rightarrow> ZPNG_ImageData \<Rightarrow> ZPNG_Buffer \<Rightarrow> (int \<times> ZPNG_Buffer) option" where
  "ZPNG_CompressVideoToBuffer z refData imageData bufferOutput =
    (let pixelBytes = pixelBytes_of imageData;
         byteCount = byteCount_of imageData
     in
     if pixelBytes > 8 then Some (0, bufferOutput)
     else
       let packing = replicate (u32 (byteCount + 1000)) (0 :: byte);
           maxOutputBytes = u32 (ZSTD_compressBound z byteCount)
       in
       if Bytes bufferOutput \<noteq> 0 \<and> Bytes bufferOutput < u32 (ZPNG_HEADER_OVERHEAD_BYTES + maxOutputBytes)
       then Some (0, bufferOutput)
       else
         case (if Bytes bufferOutput = 0
               then Some (replicate (u32 (ZPNG_HEADER_OVERHEAD_BYTES + maxOutputBytes)) 0)
               else Data bufferOutput) of
           None \<Rightarrow> Some (0, bufferOutput)
         | Some output \<Rightarrow> do {
             (packing', overflowCount) \<leftarrow> pack_pass refData imageData packing;
             let srcSize = u32 (byteCount + (if overflowCount \<ge> 0 then nat overflowCount else 0));
             src \<leftarrow> (if srcSize \<le> length packing' then Some (take srcSize packing') else None);
             case ZSTD_compress z maxOutputBytes src of
               None \<Rightarrow> Some (0, bufferOutput)
             | Some payload \<Rightarrow> do {
                 output1 \<leftarrow> blit output ZPNG_HEADER_OVERHEAD_BYTES payload;
                 output2 \<leftarrow> blit output1 0
                    (ZPNG_Header (byte_order z)
                       (if refData \<noteq> None \<and> overflowCount \<ge> 0
                        then ZPNG_VIDEO_HEADER_MAGIC else ZPNG_HEADER_MAGIC) imageData);
                 Some (0, \<lparr>Data = Some output2,
                           Bytes = u32 (ZPNG_HEADER_OVERHEAD_BYTES + u32 (length payload))\<rparr>) } })"

definition ZPNG_CompressToBuffer ::
  "env \<Rightarrow> ZPNG_ImageData \<Rightarrow> ZPNG_Buffer \<Rightarrow> (int \<times> ZPNG_Buffer) option" where
  "ZPNG_CompressToBuffer z imageData bufferOutput =
     ZPNG_CompressVideoToBuffer z None imageData bufferOutput"

definition ZPNG_Compress :: "env \<Rightarrow> ZPNG_ImageData \<Rightarrow> ZPNG_Buffer option" where
  "ZPNG_Compress z imageData =
     map_option snd (ZPNG_CompressVideoToBuffer z None imageData \<lparr>Data = None, Bytes = 0\<rparr>)"

text \<open>Pass 2 of the decoder: the inverse filter, writing the output region.\<close>

definition unpack_pass ::
  "ZPNG_ImageData option \<Rightarrow> byte list \<Rightarrow> ZPNG_ImageData \<Rightarrow> byte list option" where
  "unpack_pass refData packing imageData =
    (let pixelBytes = pixelBytes_of imageData in
     case (if IsIFrame imageData = 0 then refData else None) of
       Some r \<Rightarrow>
         if pixelBytes \<in> {1, 2, 3, 4, 5, 6, 7, 8}
         then UnpackAndUnfilterVideo pixelBytes r packing imageData
         else Some (pixels imageData)
     | None \<Rightarrow>
         if BytesPerChannel imageData > 8 then UnpackAndUnfilterXGGY packing imageData
         else if pixelBytes = 3 then UnpackAndUnfilter3 packing imageData
         else if pixelBytes = 4 then UnpackAndUnfilter4 packing imageData
         else if pixelBytes \<in> {1, 2, 5, 6, 7, 8} then UnpackAndUnfilter pixelBytes packing imageData
         else Some (pixels imageData))"

definition ZPNG_DecompressVideo ::
  "env \<Rightarrow> ZPNG_ImageData option \<Rightarrow> ZPNG_Buffer \<Rightarrow> ZPNG_ImageData option" where
  "ZPNG_DecompressVideo z refData buffer =
    (let imageData0 = \<lparr>Buffer = \<lparr>Data = None, Bytes = 0\<rparr>, BytesPerChannel = 0, Channels = 0,
                       WidthPixels = 0, HeightPixels = 0, StrideBytes = 0, IsIFrame = 1\<rparr>
     in
     case Data buffer of
       None \<Rightarrow> Some imageData0
     | Some mem \<Rightarrow>
         if Bytes buffer < ZPNG_HEADER_OVERHEAD_BYTES then Some imageData0
         else if length mem < Bytes buffer then None
         else
           let Magic = load16 (byte_order z) (mem ! 0) (mem ! 1) in
           if Magic \<noteq> ZPNG_HEADER_MAGIC \<and> (refData = None \<or> Magic \<noteq> ZPNG_VIDEO_HEADER_MAGIC)
           then Some imageData0
           else
             let imageData1 = imageData0
                   \<lparr>IsIFrame := (if Magic \<noteq> ZPNG_HEADER_MAGIC then 0 else 1),
                    WidthPixels := load16 (byte_order z) (mem ! 2) (mem ! 3),
                    HeightPixels := load16 (byte_order z) (mem ! 4) (mem ! 5),
                    Channels := unat (mem ! 6),
                    BytesPerChannel := unat (mem ! 7)\<rparr>;
                 imageData2 = imageData1
                   \<lparr>StrideBytes := u32 (WidthPixels imageData1 * Channels imageData1)\<rparr>;
                 byteCount = byteCount_of imageData2;
                 packing = replicate (u32 (byteCount + 1000)) (0 :: byte)
             in
             case ZSTD_decompress z (u32 (byteCount + 1000))
                    (take (Bytes buffer - ZPNG_HEADER_OVERHEAD_BYTES)
                       (drop ZPNG_HEADER_OVERHEAD_BYTES mem)) of
               None \<Rightarrow> Some imageData2
             | Some result \<Rightarrow> do {
                 packing' \<leftarrow> blit packing 0 result;
                 let imageData3 = imageData2
                       \<lparr>Buffer := \<lparr>Data = Some (replicate byteCount 0), Bytes = byteCount\<rparr>\<rparr>;
                 out \<leftarrow> unpack_pass refData packing' imageData3;
                 Some (imageData3\<lparr>Buffer := \<lparr>Data = Some out, Bytes = byteCount\<rparr>\<rparr>) })"

definition ZPNG_Decompress :: "env \<Rightarrow> ZPNG_Buffer \<Rightarrow> ZPNG_ImageData option" where
  "ZPNG_Decompress z buffer = ZPNG_DecompressVideo z None buffer"

section \<open>Specifications\<close>

text \<open>The generic row filter, pointwise: byte \<open>c\<close> of pixel \<open>m\<close> (pixels numbered row by row,
  \<open>w\<close> to a row, \<open>k\<close> bytes each) is the difference to the same byte of the pixel on its left,
  and the byte itself in the first column. The last argument bounds the pixels covered.\<close>

definition filtered :: "nat \<Rightarrow> nat \<Rightarrow> byte list \<Rightarrow> byte list \<Rightarrow> nat \<Rightarrow> bool" where
  "filtered k w img out n \<longleftrightarrow>
     (\<forall>m<n. \<forall>c<k. out ! (m * k + c) =
        img ! (m * k + c) - (if m mod w = 0 then 0 else img ! ((m - 1) * k + c)))"

text \<open>The first \<open>n\<close> pixels of \<open>out\<close> are those of \<open>img\<close>.\<close>

definition restored :: "nat \<Rightarrow> byte list \<Rightarrow> byte list \<Rightarrow> nat \<Rightarrow> bool" where
  "restored k img out n \<longleftrightarrow> (\<forall>m<n. \<forall>c<k. out ! (m * k + c) = img ! (m * k + c))"

text \<open>The RGB filter: the left-neighbour differences \<open>r\<close>, \<open>g\<close>, \<open>b\<close> of a pixel are stored as
  \<open>b\<close>, \<open>g - b\<close> and \<open>g - r\<close> in three planes of \<open>pb\<close> bytes each.\<close>

definition planar3 :: "nat \<Rightarrow> nat \<Rightarrow> byte list \<Rightarrow> byte list \<Rightarrow> nat \<Rightarrow> bool" where
  "planar3 w pb img out n \<longleftrightarrow>
     (\<forall>m<n.
        let r = img ! (m * 3) - (if m mod w = 0 then 0 else img ! ((m - 1) * 3));
            g = img ! (m * 3 + 1) - (if m mod w = 0 then 0 else img ! ((m - 1) * 3 + 1));
            b = img ! (m * 3 + 2) - (if m mod w = 0 then 0 else img ! ((m - 1) * 3 + 2))
        in out ! m = b \<and> out ! (pb + m) = g - b \<and> out ! (pb * 2 + m) = g - r)"

text \<open>The RGBA filter: as for RGB, with the alpha difference in a fourth plane.\<close>

definition planar4 :: "nat \<Rightarrow> nat \<Rightarrow> byte list \<Rightarrow> byte list \<Rightarrow> nat \<Rightarrow> bool" where
  "planar4 w pb img out n \<longleftrightarrow>
     (\<forall>m<n.
        let r = img ! (m * 4) - (if m mod w = 0 then 0 else img ! ((m - 1) * 4));
            g = img ! (m * 4 + 1) - (if m mod w = 0 then 0 else img ! ((m - 1) * 4 + 1));
            b = img ! (m * 4 + 2) - (if m mod w = 0 then 0 else img ! ((m - 1) * 4 + 2));
            a = img ! (m * 4 + 3) - (if m mod w = 0 then 0 else img ! ((m - 1) * 4 + 3))
        in out ! m = b \<and> out ! (pb + m) = g - b \<and> out ! (pb * 2 + m) = g - r
           \<and> out ! (pb * 3 + m) = a)"

text \<open>The Bayer filter on one pair of rows starting at input offset \<open>i0\<close>, with \<open>w\<close> half the row
  width: each byte is the difference to the byte two columns to its left; the even bytes of the
  even row go to offset \<open>a\<close>, the odd bytes of the odd row to \<open>b\<close>, the remaining bytes of the
  even and of the odd row to \<open>g\<close> and \<open>g + w\<close>.\<close>

definition xggy_pair :: "nat \<Rightarrow> byte list \<Rightarrow> byte list \<Rightarrow> nat \<Rightarrow> nat \<Rightarrow> nat \<Rightarrow> nat \<Rightarrow> bool" where
  "xggy_pair w img out i0 a b g \<longleftrightarrow>
     (\<forall>j<w. out ! (a + j) = img ! (i0 + 2 * j) - (if j = 0 then 0 else img ! (i0 + 2 * j - 2))
          \<and> out ! (g + j) = img ! (i0 + 2 * j + 1) - (if j = 0 then 0 else img ! (i0 + 2 * j - 1))
          \<and> out ! (b + j) = img ! (i0 + 2 * w + 2 * j + 1)
                - (if j = 0 then 0 else img ! (i0 + 2 * w + 2 * j - 1))
          \<and> out ! (g + w + j) = img ! (i0 + 2 * w + 2 * j)
                - (if j = 0 then 0 else img ! (i0 + 2 * w + 2 * j - 2)))"

text \<open>The Bayer filter on the first \<open>n\<close> pairs of rows; \<open>pb\<close> is the size of the first two planes.\<close>

definition bayer :: "nat \<Rightarrow> nat \<Rightarrow> byte list \<Rightarrow> byte list \<Rightarrow> nat \<Rightarrow> bool" where
  "bayer w pb img out n \<longleftrightarrow>
     (\<forall>rr<n. xggy_pair w img out (rr * w * 4) (rr * w) (pb + rr * w) (pb * 2 + rr * w * 2))"

text \<open>What pass 1 of the intra encoder leaves in the packing buffer, by the dispatch of
  \<^verbatim>\<open>ZPNG_CompressVideoToBuffer\<close>.\<close>

definition intra_packed :: "ZPNG_ImageData \<Rightarrow> byte list \<Rightarrow> byte list \<Rightarrow> bool" where
  "intra_packed d img out =
    (let W = WidthPixels d; H = HeightPixels d in
     if BytesPerChannel d > 8 then bayer (W div 2) (H div 2 * (W div 2)) img out (H div 2)
     else if pixelBytes_of d = 3 then planar3 W (H * W) img out (H * W)
     else if pixelBytes_of d = 4 then planar4 W (H * W) img out (H * W)
     else filtered (pixelBytes_of d) W img out (H * W))"

text \<open>Descriptors for which the intra round trip is proved: dimensions and depths that fit the
  header fields, a pixel buffer of the size the encoder computes, no wrap-around of the 32-bit
  sizes, and in Bayer mode one channel and even dimensions.\<close>

definition valid_intra :: "ZPNG_ImageData \<Rightarrow> bool" where
  "valid_intra d \<longleftrightarrow>
     0 < WidthPixels d \<and> WidthPixels d < 2 ^ 16 \<and> 0 < HeightPixels d \<and> HeightPixels d < 2 ^ 16
   \<and> Channels d < 2 ^ 8 \<and> BytesPerChannel d < 2 ^ 8
   \<and> 1 \<le> pixelBytes_of d \<and> pixelBytes_of d \<le> 8
   \<and> pixelBytes_of d * (WidthPixels d * HeightPixels d) + 1000 < 2 ^ 32
   \<and> (BytesPerChannel d > 8 \<longrightarrow> even (WidthPixels d) \<and> even (HeightPixels d) \<and> Channels d = 1)
   \<and> Data (Buffer d) \<noteq> None
   \<and> length (pixels d) = pixelBytes_of d * (WidthPixels d * HeightPixels d)"

text \<open>What is assumed of the entropy coder: compression succeeds when the destination holds the
  compress bound, its result fits the destination, and decompression into a large enough
  destination returns the source.\<close>

definition zstd_contract :: "env \<Rightarrow> bool" where
  "zstd_contract z \<longleftrightarrow>
     (\<forall>cap src. ZSTD_compressBound z (length src) \<le> cap \<longrightarrow> ZSTD_compress z cap src \<noteq> None)
   \<and> (\<forall>cap src c. ZSTD_compress z cap src = Some c \<longrightarrow>
          length c \<le> cap \<and> (\<forall>cap'. length src \<le> cap' \<longrightarrow> ZSTD_decompress z cap' c = Some src))"

text \<open>The descriptor the decoder hands to the inverse filter.\<close>

definition decoded_image :: "ZPNG_ImageData \<Rightarrow> nat \<Rightarrow> byte list \<Rightarrow> ZPNG_ImageData" where
  "decoded_image d iframe mem =
     \<lparr>Buffer = \<lparr>Data = Some mem, Bytes = byteCount_of d\<rparr>,
      BytesPerChannel = BytesPerChannel d, Channels = Channels d,
      WidthPixels = WidthPixels d, HeightPixels = HeightPixels d,
      StrideBytes = u32 (WidthPixels d * Channels d), IsIFrame = iframe\<rparr>"

text \<open>A coder that meets the contract: it stores the source unchanged. It stands for the entropy
  coder wherever a claim is evaluated on a concrete image, on a little-endian host.\<close>

definition store_coder :: env where
  "store_coder =
     \<lparr>byte_order = LittleEndian,
      ZSTD_compressBound = (\<lambda>srcSize. srcSize),
      ZSTD_compress = (\<lambda>dstCapacity src. if length src \<le> dstCapacity then Some src else None),
      ZSTD_decompress = (\<lambda>dstCapacity src. if length src \<le> dstCapacity then Some src else None)\<rparr>"

text \<open>The 2 x 1 RGB image with pixels (10, 20, 30) and (15, 24, 29).\<close>

definition rgb_two_pixels :: ZPNG_ImageData where
  "rgb_two_pixels =
     \<lparr>Buffer = \<lparr>Data = Some [10, 20, 30, 15, 24, 29], Bytes = 6\<rparr>,
      BytesPerChannel = 1, Channels = 3, WidthPixels = 2, HeightPixels = 1,
      StrideBytes = 6, IsIFrame = 1\<rparr>"

text \<open>A 2 x 2 image with two channels in Bayer mode (more than 8 bytes per channel).\<close>

definition bayer_two_channels :: ZPNG_ImageData where
  "bayer_two_channels =
     \<lparr>Buffer = \<lparr>Data = Some [1, 2, 3, 4, 5, 6, 7, 8], Bytes = 8\<rparr>,
      BytesPerChannel = 9, Channels = 2, WidthPixels = 2, HeightPixels = 2,
      StrideBytes = 4, IsIFrame = 1\<rparr>"

text \<open>The difference of a byte of the current frame to the reference is outside [-127, 127].\<close>

definition ovf :: "byte \<Rightarrow> byte \<Rightarrow> bool" where
  "ovf a r \<longleftrightarrow> uint a - uint r > 127 \<or> uint a - uint r < - 127"

text \<open>The number of such bytes among the first \<open>j\<close>.\<close>

definition esc_count :: "byte list \<Rightarrow> byte list \<Rightarrow> nat \<Rightarrow> nat" where
  "esc_count cur rf j = length (filter (\<lambda>i. ovf (cur ! i) (rf ! i)) [0..<j])"

text \<open>The byte the inter filter puts in the main stream.\<close>

definition vbyte :: "byte \<Rightarrow> byte \<Rightarrow> byte" where
  "vbyte a r = (if ovf a r then 0x80 else word_of_int (uint a - uint r))"

text \<open>The packing buffer after \<open>j\<close> bytes of the inter filter: the main stream, and from offset
  \<open>N\<close> on the literal bytes in the order of their escapes.\<close>

definition inter_packed :: "byte list \<Rightarrow> byte list \<Rightarrow> nat \<Rightarrow> byte list \<Rightarrow> nat \<Rightarrow> bool" where
  "inter_packed cur rf N ob j \<longleftrightarrow>
     (\<forall>i<j. ob ! i = vbyte (cur ! i) (rf ! i))
   \<and> (\<forall>i<j. ovf (cur ! i) (rf ! i) \<longrightarrow> ob ! (N + esc_count cur rf i) = cur ! i)"

text \<open>Invariant of the channel loop of \<^verbatim>\<open>PackAndFilterVideo\<close> after \<open>j\<close> bytes: the loop goes on
  with the packed prefix while at most 1000 bytes have overflowed, and has returned through
  \<^verbatim>\<open>PackAndFilterXGGY\<close> otherwise.\<close>

definition video_progress ::
  "ZPNG_ImageData \<Rightarrow> byte list \<Rightarrow> nat \<Rightarrow> nat \<Rightarrow> nat
     \<Rightarrow> (nat \<times> nat \<times> byte list, byte list) flow \<Rightarrow> bool" where
  "video_progress d rf N L j res \<longleftrightarrow>
     (esc_count (pixels d) rf j \<le> 1000 \<longrightarrow>
        (\<exists>ob. res = Next (N + esc_count (pixels d) rf j, esc_count (pixels d) rf j, ob)
            \<and> length ob = L \<and> inter_packed (pixels d) rf N ob j))
   \<and> (1000 < esc_count (pixels d) rf j \<longrightarrow>
        (\<exists>ob. length ob = L
            \<and> res = (case PackAndFilterXGGY d ob of None \<Rightarrow> Fault | Some out \<Rightarrow> Return out)))"

text \<open>The same invariant for the pixel loop, after \<open>m\<close> pixels of \<open>k\<close> bytes.\<close>

definition video_progress_px ::
  "ZPNG_ImageData \<Rightarrow> byte list \<Rightarrow> nat \<Rightarrow> nat \<Rightarrow> nat \<Rightarrow> nat
     \<Rightarrow> (nat \<times> nat \<times> nat \<times> nat \<times> nat \<times> byte list, byte list) flow \<Rightarrow> bool" where
  "video_progress_px d rf N L k m res \<longleftrightarrow>
     (esc_count (pixels d) rf (m * k) \<le> 1000 \<longrightarrow>
        (\<exists>ob. res = Next (m * k, m * k, m * k, N + esc_count (pixels d) rf (m * k),
                         esc_count (pixels d) rf (m * k), ob)
            \<and> length ob = L \<and> inter_packed (pixels d) rf N ob (m * k)))
   \<and> (1000 < esc_count (pixels d) rf (m * k) \<longrightarrow>
        (\<exists>ob. length ob = L
            \<and> res = (case PackAndFilterXGGY d ob of None \<Rightarrow> Fault | Some out \<Rightarrow> Return out)))"

text \<open>A one-channel 8-bit frame with every byte \<open>v\<close>.\<close>

definition flat_frame :: "nat \<Rightarrow> nat \<Rightarrow> byte \<Rightarrow> ZPNG_ImageData" where
  "flat_frame w h v =
     \<lparr>Buffer = \<lparr>Data = Some (replicate (w * h) v), Bytes = w * h\<rparr>,
      BytesPerChannel = 1, Channels = 1, WidthPixels = w, HeightPixels = h,
      StrideBytes = w, IsIFrame = 1\<rparr>"

text \<open>A frame of two bytes and its reference: the first byte overflows (+200), the second
  does not (+3).\<close>

definition video_cur :: ZPNG_ImageData where
  "video_cur =
     \<lparr>Buffer = \<lparr>Data = Some [200, 5], Bytes = 2\<rparr>,
      BytesPerChannel = 1, Channels = 1, WidthPixels = 2, HeightPixels = 1,
      StrideBytes = 2, IsIFrame = 1\<rparr>"

definition video_ref :: ZPNG_ImageData where
  "video_ref =
     \<lparr>Buffer = \<lparr>Data = Some [0, 2], Bytes = 2\<rparr>,
      BytesPerChannel = 1, Channels = 1, WidthPixels = 2, HeightPixels = 1,
      StrideBytes = 2, IsIFrame = 1\<rparr>"

text \<open>The 1 x 1 gray image with the byte 0x42.\<close>

definition gray_pixel :: ZPNG_ImageData where
  "gray_pixel =
     \<lparr>Buffer = \<lparr>Data = Some [0x42], Bytes = 1\<rparr>,
      BytesPerChannel = 1, Channels = 1, WidthPixels = 1, HeightPixels = 1,
      StrideBytes = 1, IsIFrame = 1\<rparr>"

text \<open>The storing coder on a big-endian host.\<close>

definition store_coder_be :: env where
  "store_coder_be = store_coder\<lparr>byte_order := BigEndian\<rparr>"

text \<open>Two descriptors with no bytes per pixel: one in Bayer mode, one not.\<close>

definition empty_bayer :: ZPNG_ImageData where
  "empty_bayer =
     \<lparr>Buffer = \<lparr>Data = Some [], Bytes = 0\<rparr>,
      BytesPerChannel = 9, Channels = 0, WidthPixels = 2, HeightPixels = 2,
      StrideBytes = 0, IsIFrame = 1\<rparr>"

definition no_channels :: ZPNG_ImageData where
  "no_channels =
     \<lparr>Buffer = \<lparr>Data = Some [], Bytes = 0\<rparr>,
      BytesPerChannel = 1, Channels = 0, WidthPixels = 2, HeightPixels = 2,
      StrideBytes = 0, IsIFrame = 1\<rparr>"

text \<open>Encoding a frame against a reference into a fresh buffer and decoding the result against the
  same reference.\<close>

definition decode_of_encode :: "env \<Rightarrow> ZPNG_ImageData \<Rightarrow> ZPNG_ImageData \<Rightarrow> ZPNG_ImageData option" where
  "decode_of_encode z refData imageData =
     (case ZPNG_CompressVideoToBuffer z (Some refData) imageData \<lparr>Data = None, Bytes = 0\<rparr> of
        None \<Rightarrow> None
      | Some (status, buffer) \<Rightarrow> ZPNG_DecompressVideo z (Some refData) buffer)"

section \<open>Verification\<close>

subsection \<open>Evaluation on concrete inputs\<close>

lemma for_upto_numeral:
  "for_upto (numeral v) body s =
     (case for_upto (pred_numeral v) body s of None \<Rightarrow> None
      | Some s' \<Rightarrow> body (pred_numeral v) s')"
  by (simp add: numeral_eq_Suc)

lemma list_update_Cons_numeral:
  "(x # xs)[numeral v := y] = x # xs[pred_numeral v := y]"
  by (simp add: numeral_eq_Suc)

lemma replicate_numeral_Cons:
  "replicate (numeral v) x = x # replicate (pred_numeral v) x"
  by (simp add: numeral_eq_Suc)

lemmas eval_simps = for_upto_numeral list_update_Cons_numeral replicate_numeral_Cons

text \<open>
  C9. The RGB filter on the 2x1 image with pixels (10, 20, 30) and (15, 24, 29) writes the
  planes Y = [30, 0xFF], U = [0xF6, 5], V = [10, 0xFF], one after the other, into the
  packing buffer.
\<close>

theorem C9_rgb_two_pixels:
  "PackAndFilter3
     \<lparr>Buffer = \<lparr>Data = Some [10, 20, 30, 15, 24, 29], Bytes = 6\<rparr>,
      BytesPerChannel = 1, Channels = 3, WidthPixels = 2, HeightPixels = 1,
      StrideBytes = 6, IsIFrame = 1\<rparr>
     (replicate 6 0)
   = Some [30, 0xFF, 0xF6, 5, 10, 0xFF]"
  by (simp add: PackAndFilter3_def paf3_row_def paf3_pixel_def pixels_def rd_def wr_def u32_def
      Let_def eval_simps)

lemma for_upto_rule:
  assumes "I 0 s"
    and "\<And>i t. i < n \<Longrightarrow> I i t \<Longrightarrow> \<exists>t'. body i t = Some t' \<and> I (Suc i) t'"
  shows "\<exists>s'. for_upto n body s = Some s' \<and> I n s'"
  using assms(2)
proof (induction n)
  case 0
  then show ?case using assms(1) by simp
next
  case (Suc n)
  then obtain t where t: "for_upto n body s = Some t" "I n t"
    by (meson less_Suc_eq)
  from Suc.prems[of n t] t obtain t' where "body n t = Some t'" "I (Suc n) t'"
    by auto
  then show ?case using t by simp
qed

lemma idx_lt: "m < n \<Longrightarrow> c < k \<Longrightarrow> m * k + c < n * (k::nat)"
proof -
  assume a: "m < n" "c < k"
  then have "m * k + c < Suc m * k" by simp
  also have "\<dots> \<le> n * k" using a(1) by (intro mult_le_mono1) simp
  finally show ?thesis .
qed

lemma rd_Some: "i < length mem \<Longrightarrow> rd mem i = Some (mem ! i)"
  by (simp add: rd_def)

lemma wr_Some: "i < length mem \<Longrightarrow> wr mem i v = Some (mem[i := v])"
  by (simp add: wr_def)

lemma paf_pixel_ok:
  assumes "p + k \<le> length inp" "q + k \<le> length out" "length prev = k"
  shows "\<exists>out'. paf_pixel k inp (p, q, prev, out) = Some (p + k, q + k, take k (drop p inp), out')
           \<and> length out' = length out
           \<and> (\<forall>c<k. out' ! (q + c) = inp ! (p + c) - prev ! c)
           \<and> (\<forall>j<q. out' ! j = out ! j)"
proof -
  define I where "I = (\<lambda>i (t :: byte list \<times> byte list). case t of (prev', out') \<Rightarrow>
      length prev' = k \<and> length out' = length out
    \<and> (\<forall>c<i. prev' ! c = inp ! (p + c) \<and> out' ! (q + c) = inp ! (p + c) - prev ! c)
    \<and> (\<forall>c. i \<le> c \<longrightarrow> c < k \<longrightarrow> prev' ! c = prev ! c)
    \<and> (\<forall>j<q. out' ! j = out ! j))"
  have "\<exists>s'. for_upto k (paf_channel inp p q) (prev, out) = Some s' \<and> I k s'"
  proof (rule for_upto_rule)
    show "I 0 (prev, out)" using assms by (simp add: I_def)
  next
    fix i t assume i: "i < k" and t: "I i t"
    obtain prev' out' where [simp]: "t = (prev', out')" by (cases t)
    from t have l: "length prev' = k" "length out' = length out" by (auto simp: I_def)
    have "paf_channel inp p q i t = Some (prev'[i := inp ! (p + i)], out'[q + i := inp ! (p + i) - prev' ! i])"
      using i assms l by (simp add: paf_channel_def rd_Some wr_Some)
    moreover have "I (Suc i) (prev'[i := inp ! (p + i)], out'[q + i := inp ! (p + i) - prev' ! i])"
      using t i l assms unfolding I_def by (auto simp: nth_list_update less_Suc_eq)
    ultimately show "\<exists>t'. paf_channel inp p q i t = Some t' \<and> I (Suc i) t'" by blast
  qed
  then obtain prev' out' where r: "for_upto k (paf_channel inp p q) (prev, out) = Some (prev', out')"
     and I: "I k (prev', out')" by auto
  have "prev' = take k (drop p inp)"
    using I assms by (intro nth_equalityI) (auto simp: I_def)
  then show ?thesis using r I by (auto simp: paf_pixel_def I_def)
qed

lemma paf_row_ok:
  assumes len: "(M + W) * k \<le> length inp" "(M + W) * k \<le> length out"
    and M: "M mod W = 0" and f: "filtered k W inp out M"
  shows "\<exists>out'. paf_row k W inp (M * k, M * k, out) = Some ((M + W) * k, (M + W) * k, out')
           \<and> length out' = length out \<and> filtered k W inp out' (M + W)"
proof -
  define J where "J = (\<lambda>x (t :: nat \<times> nat \<times> byte list \<times> byte list). case t of (ip, op, prev, ob) \<Rightarrow>
      ip = (M + x) * k \<and> op = (M + x) * k \<and> length prev = k
    \<and> (\<forall>c<k. prev ! c = (if x = 0 then 0 else inp ! ((M + x - 1) * k + c)))
    \<and> length ob = length out \<and> filtered k W inp ob (M + x))"
  have "\<exists>s'. for_upto W (\<lambda>x. paf_pixel k inp) (M * k, M * k, replicate k 0, out) = Some s' \<and> J W s'"
  proof (rule for_upto_rule)
    show "J 0 (M * k, M * k, replicate k 0, out)" using f by (simp add: J_def)
  next
    fix x t assume x: "x < W" and t: "J x t"
    obtain ip op prev ob where [simp]: "t = (ip, op, prev, ob)" by (cases t)
    from t have ip: "ip = (M + x) * k" "op = (M + x) * k" and lp: "length prev = k"
      and pv: "\<forall>c<k. prev ! c = (if x = 0 then 0 else inp ! ((M + x - 1) * k + c))"
      and lo: "length ob = length out" and fo: "filtered k W inp ob (M + x)"
      by (auto simp: J_def)
    have "(M + Suc x) * k \<le> (M + W) * k" using x by (intro mult_le_mono1) simp
    then have b: "(M + x) * k + k \<le> length inp" "(M + x) * k + k \<le> length ob"
      using len lo by (simp_all add: algebra_simps)
    from paf_pixel_ok[OF b lp] obtain ob' where
      r: "paf_pixel k inp ((M + x) * k, (M + x) * k, prev, ob)
            = Some ((M + x) * k + k, (M + x) * k + k, take k (drop ((M + x) * k) inp), ob')"
      and lo': "length ob' = length ob"
      and new: "\<forall>c<k. ob' ! ((M + x) * k + c) = inp ! ((M + x) * k + c) - prev ! c"
      and old: "\<forall>j<(M + x) * k. ob' ! j = ob ! j" by blast
    have "(M + x) mod W = (M mod W + x) mod W" by (simp add: mod_add_left_eq)
    then have modx: "(M + x) mod W = 0 \<longleftrightarrow> x = 0"
      using M x by simp
    have "filtered k W inp ob' (M + Suc x)"
      unfolding filtered_def
    proof (intro allI impI)
      fix m c assume m: "m < M + Suc x" and c: "c < k"
      show "ob' ! (m * k + c) = inp ! (m * k + c) - (if m mod W = 0 then 0 else inp ! ((m - 1) * k + c))"
      proof (cases "m = M + x")
        case True
        then show ?thesis using new pv c modx by auto
      next
        case False
        then have "m < M + x" using m by simp
        then show ?thesis using old fo c idx_lt[of m "M + x" c k] by (simp add: filtered_def)
      qed
    qed
    moreover have "\<forall>c<k. take k (drop ((M + x) * k) inp) ! c = inp ! ((M + x) * k + c)"
      using b by simp
    ultimately have "J (Suc x) ((M + x) * k + k, (M + x) * k + k, take k (drop ((M + x) * k) inp), ob')"
      using lo lo' b by (simp add: J_def)
    then show "\<exists>t'. paf_pixel k inp t = Some t' \<and> J (Suc x) t'"
      using r ip by simp
  qed
  then show ?thesis by (auto simp: paf_row_def J_def)
qed

lemma PackAndFilter_ok:
  assumes len: "H * W * k \<le> length (pixels d)" "H * W * k \<le> length out"
    and d: "HeightPixels d = H" "WidthPixels d = W"
  shows "\<exists>out'. PackAndFilter k d out = Some out' \<and> length out' = length out
           \<and> filtered k W (pixels d) out' (H * W)"
proof -
  define K where "K = (\<lambda>y (t :: nat \<times> nat \<times> byte list). case t of (ip, op, ob) \<Rightarrow>
      ip = y * W * k \<and> op = y * W * k \<and> length ob = length out
    \<and> filtered k W (pixels d) ob (y * W))"
  have "\<exists>s'. for_upto H (\<lambda>y. paf_row k W (pixels d)) (0, 0, out) = Some s' \<and> K H s'"
  proof (rule for_upto_rule)
    show "K 0 (0, 0, out)" by (simp add: K_def filtered_def)
  next
    fix y t assume y: "y < H" and t: "K y t"
    obtain ip op ob where [simp]: "t = (ip, op, ob)" by (cases t)
    from t have ip: "ip = y * W * k" "op = y * W * k"
      and lo: "length ob = length out" and fo: "filtered k W (pixels d) ob (y * W)"
      by (auto simp: K_def)
    have "Suc y * W * k \<le> H * W * k" using y by (intro mult_le_mono1) simp
    then have b: "(y * W + W) * k \<le> length (pixels d)" "(y * W + W) * k \<le> length ob"
      using len lo by (simp_all add: algebra_simps)
    from paf_row_ok[OF b _ fo] obtain ob' where
      "paf_row k W (pixels d) (y * W * k, y * W * k, ob) = Some ((y * W + W) * k, (y * W + W) * k, ob')"
      "length ob' = length ob" "filtered k W (pixels d) ob' (y * W + W)" by auto
    then show "\<exists>t'. paf_row k W (pixels d) t = Some t' \<and> K (Suc y) t'"
      using ip lo by (simp add: K_def add.commute)
  qed
  then show ?thesis by (auto simp: PackAndFilter_def K_def d)
qed

lemma uau_pixel_ok:
  assumes "p + k \<le> length inp" "q + k \<le> length out" "length prev = k"
  shows "\<exists>prev' out'. uau_pixel k inp (p, q, prev, out) = Some (p + k, q + k, prev', out')
           \<and> length out' = length out \<and> length prev' = k
           \<and> (\<forall>c<k. out' ! (q + c) = inp ! (p + c) + prev ! c)
           \<and> (\<forall>c<k. prev' ! c = inp ! (p + c) + prev ! c)
           \<and> (\<forall>j<q. out' ! j = out ! j)"
proof -
  define I where "I = (\<lambda>i (t :: byte list \<times> byte list). case t of (prev', out') \<Rightarrow>
      length prev' = k \<and> length out' = length out
    \<and> (\<forall>c<i. prev' ! c = inp ! (p + c) + prev ! c \<and> out' ! (q + c) = inp ! (p + c) + prev ! c)
    \<and> (\<forall>c. i \<le> c \<longrightarrow> c < k \<longrightarrow> prev' ! c = prev ! c)
    \<and> (\<forall>j<q. out' ! j = out ! j))"
  have "\<exists>s'. for_upto k (uau_channel inp p q) (prev, out) = Some s' \<and> I k s'"
  proof (rule for_upto_rule)
    show "I 0 (prev, out)" using assms by (simp add: I_def)
  next
    fix i t assume i: "i < k" and t: "I i t"
    obtain prev' out' where [simp]: "t = (prev', out')" by (cases t)
    from t have l: "length prev' = k" "length out' = length out" by (auto simp: I_def)
    have "uau_channel inp p q i t
         = Some (prev'[i := inp ! (p + i) + prev' ! i], out'[q + i := inp ! (p + i) + prev' ! i])"
      using i assms l by (simp add: uau_channel_def rd_Some wr_Some)
    moreover have "I (Suc i) (prev'[i := inp ! (p + i) + prev' ! i], out'[q + i := inp ! (p + i) + prev' ! i])"
      using t i l assms unfolding I_def by (auto simp: nth_list_update less_Suc_eq)
    ultimately show "\<exists>t'. uau_channel inp p q i t = Some t' \<and> I (Suc i) t'" by blast
  qed
  then obtain prev' out' where r: "for_upto k (uau_channel inp p q) (prev, out) = Some (prev', out')"
     and I: "I k (prev', out')" by auto
  then show ?thesis by (auto simp: uau_pixel_def I_def)
qed

lemma uau_row_ok:
  assumes len: "(M + W) * k \<le> length inb" "(M + W) * k \<le> length out"
    and M: "M mod W = 0" and f: "filtered k W img inb (M + W)" and r: "restored k img out M"
  shows "\<exists>out'. uau_row k W inb (M * k, M * k, out) = Some ((M + W) * k, (M + W) * k, out')
           \<and> length out' = length out \<and> restored k img out' (M + W)"
proof -
  define J where "J = (\<lambda>x (t :: nat \<times> nat \<times> byte list \<times> byte list). case t of (ip, op, prev, ob) \<Rightarrow>
      ip = (M + x) * k \<and> op = (M + x) * k \<and> length prev = k
    \<and> (\<forall>c<k. prev ! c = (if x = 0 then 0 else img ! ((M + x - 1) * k + c)))
    \<and> length ob = length out \<and> restored k img ob (M + x))"
  have "\<exists>s'. for_upto W (\<lambda>x. uau_pixel k inb) (M * k, M * k, replicate k 0, out) = Some s' \<and> J W s'"
  proof (rule for_upto_rule)
    show "J 0 (M * k, M * k, replicate k 0, out)" using r by (simp add: J_def)
  next
    fix x t assume x: "x < W" and t: "J x t"
    obtain ip op prev ob where [simp]: "t = (ip, op, prev, ob)" by (cases t)
    from t have ip: "ip = (M + x) * k" "op = (M + x) * k" and lp: "length prev = k"
      and pv: "\<forall>c<k. prev ! c = (if x = 0 then 0 else img ! ((M + x - 1) * k + c))"
      and lo: "length ob = length out" and fo: "restored k img ob (M + x)"
      by (auto simp: J_def)
    have "(M + Suc x) * k \<le> (M + W) * k" using x by (intro mult_le_mono1) simp
    then have b: "(M + x) * k + k \<le> length inb" "(M + x) * k + k \<le> length ob"
      using len lo by (simp_all add: algebra_simps)
    from uau_pixel_ok[OF b lp] obtain prev' ob' where
      r: "uau_pixel k inb ((M + x) * k, (M + x) * k, prev, ob)
            = Some ((M + x) * k + k, (M + x) * k + k, prev', ob')"
      and lo': "length ob' = length ob" and lp': "length prev' = k"
      and new: "\<forall>c<k. ob' ! ((M + x) * k + c) = inb ! ((M + x) * k + c) + prev ! c"
      and newp: "\<forall>c<k. prev' ! c = inb ! ((M + x) * k + c) + prev ! c"
      and old: "\<forall>j<(M + x) * k. ob' ! j = ob ! j" by blast
    have "(M + x) mod W = (M mod W + x) mod W" by (simp add: mod_add_left_eq)
    then have modx: "(M + x) mod W = 0 \<longleftrightarrow> x = 0"
      using M x by simp
    have cur: "inb ! ((M + x) * k + c) + prev ! c = img ! ((M + x) * k + c)" if c: "c < k" for c
    proof -
      have "inb ! ((M + x) * k + c) = img ! ((M + x) * k + c)
              - (if (M + x) mod W = 0 then 0 else img ! ((M + x - 1) * k + c))"
        using f x c by (simp add: filtered_def)
      then show ?thesis using pv c modx by simp
    qed
    have "restored k img ob' (M + Suc x)"
      unfolding restored_def
    proof (intro allI impI)
      fix m c assume m: "m < M + Suc x" and c: "c < k"
      show "ob' ! (m * k + c) = img ! (m * k + c)"
      proof (cases "m = M + x")
        case True
        then show ?thesis using new cur c by simp
      next
        case False
        then have "m < M + x" using m by simp
        then show ?thesis using old fo c idx_lt[of m "M + x" c k] by (simp add: restored_def)
      qed
    qed
    moreover have "\<forall>c<k. prev' ! c = img ! ((M + x) * k + c)"
      using newp cur by simp
    ultimately have "J (Suc x) ((M + x) * k + k, (M + x) * k + k, prev', ob')"
      using lo lo' lp' by (simp add: J_def)
    then show "\<exists>t'. uau_pixel k inb t = Some t' \<and> J (Suc x) t'"
      using r ip by simp
  qed
  then show ?thesis by (auto simp: uau_row_def J_def)
qed

lemma filtered_mono: "filtered k W img inb n \<Longrightarrow> m \<le> n \<Longrightarrow> filtered k W img inb m"
  by (simp add: filtered_def)

lemma UnpackAndUnfilter_ok:
  assumes len: "H * W * k \<le> length inb" "H * W * k \<le> length (pixels d)"
    and d: "HeightPixels d = H" "WidthPixels d = W"
    and f: "filtered k W img inb (H * W)"
  shows "\<exists>out'. UnpackAndUnfilter k inb d = Some out' \<and> length out' = length (pixels d)
           \<and> restored k img out' (H * W)"
proof -
  define K where "K = (\<lambda>y (t :: nat \<times> nat \<times> byte list). case t of (ip, op, ob) \<Rightarrow>
      ip = y * W * k \<and> op = y * W * k \<and> length ob = length (pixels d)
    \<and> restored k img ob (y * W))"
  have "\<exists>s'. for_upto H (\<lambda>y. uau_row k W inb) (0, 0, pixels d) = Some s' \<and> K H s'"
  proof (rule for_upto_rule)
    show "K 0 (0, 0, pixels d)" by (simp add: K_def restored_def)
  next
    fix y t assume y: "y < H" and t: "K y t"
    obtain ip op ob where [simp]: "t = (ip, op, ob)" by (cases t)
    from t have ip: "ip = y * W * k" "op = y * W * k"
      and lo: "length ob = length (pixels d)" and fo: "restored k img ob (y * W)"
      by (auto simp: K_def)
    have le: "Suc y * W \<le> H * W" using y by (intro mult_le_mono1) simp
    then have "Suc y * W * k \<le> H * W * k" by (rule mult_le_mono1)
    then have b: "(y * W + W) * k \<le> length inb" "(y * W + W) * k \<le> length ob"
      using len lo by (simp_all add: algebra_simps)
    have f': "filtered k W img inb (y * W + W)"
      using filtered_mono[OF f] le by (simp add: add.commute)
    from uau_row_ok[OF b _ f' fo] obtain ob' where
      "uau_row k W inb (y * W * k, y * W * k, ob) = Some ((y * W + W) * k, (y * W + W) * k, ob')"
      "length ob' = length ob" "restored k img ob' (y * W + W)" by auto
    then show "\<exists>t'. uau_row k W inb t = Some t' \<and> K (Suc y) t'"
      using ip lo by (simp add: K_def add.commute)
  qed
  then show ?thesis by (auto simp: UnpackAndUnfilter_def K_def d)
qed

lemma restored_eq:
  assumes "restored k img out n" "length out = n * k" "length img = n * k"
  shows "out = img"
proof (rule nth_equalityI)
  show "length out = length img" using assms by simp
next
  fix j assume j: "j < length out"
  then have k: "0 < k" using assms(2) by (cases k) auto
  have "j div k < n" using j assms(2) k by (simp add: less_mult_imp_div_less)
  moreover have "j mod k < k" using k by simp
  ultimately have "out ! (j div k * k + j mod k) = img ! (j div k * k + j mod k)"
    using assms(1)[unfolded restored_def, rule_format, of "j div k" "j mod k"] by blast
  then show "out ! j = img ! j" by simp
qed

lemma planar3_Suc:
  "planar3 w pb img out (Suc n) \<longleftrightarrow> planar3 w pb img out n \<and>
     (let r = img ! (n * 3) - (if n mod w = 0 then 0 else img ! ((n - 1) * 3));
          g = img ! (n * 3 + 1) - (if n mod w = 0 then 0 else img ! ((n - 1) * 3 + 1));
          b = img ! (n * 3 + 2) - (if n mod w = 0 then 0 else img ! ((n - 1) * 3 + 2))
      in out ! n = b \<and> out ! (pb + n) = g - b \<and> out ! (pb * 2 + n) = g - r)"
  by (auto simp: planar3_def less_Suc_eq)

lemma planar3_update:
  assumes "planar3 w pb img out n" "n \<le> i" "i < pb"
  shows "planar3 w pb img (out[i := a, pb + i := b, pb * 2 + i := c]) n"
  using assms by (auto simp: planar3_def Let_def)

lemma paf3_row_ok:
  assumes len: "(M + W) * 3 \<le> length inp" "pb * 3 \<le> length out" "M + W \<le> pb"
    and M: "M mod W = 0" and f: "planar3 W pb inp out M"
  shows "\<exists>out'. paf3_row W inp (M * 3, M, pb + M, pb * 2 + M, out)
             = Some ((M + W) * 3, M + W, pb + (M + W), pb * 2 + (M + W), out')
           \<and> length out' = length out \<and> planar3 W pb inp out' (M + W)"
proof -
  define J where "J = (\<lambda>x (t :: nat \<times> nat \<times> nat \<times> nat \<times> byte \<times> byte \<times> byte \<times> byte list).
    case t of (ip, py, pu, pv, p0, p1, p2, ob) \<Rightarrow>
      ip = (M + x) * 3 \<and> py = M + x \<and> pu = pb + (M + x) \<and> pv = pb * 2 + (M + x)
    \<and> p0 = (if x = 0 then 0 else inp ! ((M + x - 1) * 3))
    \<and> p1 = (if x = 0 then 0 else inp ! ((M + x - 1) * 3 + 1))
    \<and> p2 = (if x = 0 then 0 else inp ! ((M + x - 1) * 3 + 2))
    \<and> length ob = length out \<and> planar3 W pb inp ob (M + x))"
  have "\<exists>s'. for_upto W (\<lambda>x. paf3_pixel inp) (M * 3, M, pb + M, pb * 2 + M, 0, 0, 0, out) = Some s' \<and> J W s'"
  proof (rule for_upto_rule)
    show "J 0 (M * 3, M, pb + M, pb * 2 + M, 0, 0, 0, out)" using f by (simp add: J_def)
  next
    fix x t assume x: "x < W" and t: "J x t"
    obtain ip py pu pv p0 p1 p2 ob where [simp]: "t = (ip, py, pu, pv, p0, p1, p2, ob)" by (cases t) auto
    from t have ip: "ip = (M + x) * 3" "py = M + x" "pu = pb + (M + x)" "pv = pb * 2 + (M + x)"
      and pv: "p0 = (if x = 0 then 0 else inp ! ((M + x - 1) * 3))"
              "p1 = (if x = 0 then 0 else inp ! ((M + x - 1) * 3 + 1))"
              "p2 = (if x = 0 then 0 else inp ! ((M + x - 1) * 3 + 2))"
      and lo: "length ob = length out" and fo: "planar3 W pb inp ob (M + x)"
      by (auto simp: J_def)
    have "(M + x) mod W = (M mod W + x) mod W" by (simp add: mod_add_left_eq)
    then have modx: "(M + x) mod W = 0 \<longleftrightarrow> x = 0"
      using M x by simp
    have b: "(M + x) * 3 + 2 < length inp" "M + x < pb" "pb * 2 + (M + x) < length ob"
      using len lo x by simp_all
    define r g bb where "r = inp ! ((M + x) * 3) - p0" and "g = inp ! ((M + x) * 3 + 1) - p1"
      and "bb = inp ! ((M + x) * 3 + 2) - p2"
    define ob' where "ob' = ob[M + x := bb, pb + (M + x) := g - bb, pb * 2 + (M + x) := g - r]"
    have r: "paf3_pixel inp t = Some ((M + x) * 3 + 3, M + x + 1, pb + (M + x) + 1, pb * 2 + (M + x) + 1,
                inp ! ((M + x) * 3), inp ! ((M + x) * 3 + 1), inp ! ((M + x) * 3 + 2), ob')"
      using b ip by (simp add: paf3_pixel_def rd_Some wr_Some ob'_def r_def g_def bb_def Let_def)
    have "planar3 W pb inp ob' (M + x)"
      unfolding ob'_def using fo b by (intro planar3_update) simp_all
    moreover have "ob' ! (M + x) = bb" "ob' ! (pb + (M + x)) = g - bb" "ob' ! (pb * 2 + (M + x)) = g - r"
      using b by (simp_all add: ob'_def)
    ultimately have "planar3 W pb inp ob' (Suc (M + x))"
      using pv modx by (simp add: planar3_Suc Let_def r_def g_def bb_def)
    then have "J (Suc x) ((M + x) * 3 + 3, M + x + 1, pb + (M + x) + 1, pb * 2 + (M + x) + 1,
                inp ! ((M + x) * 3), inp ! ((M + x) * 3 + 1), inp ! ((M + x) * 3 + 2), ob')"
      using lo by (simp add: J_def ob'_def)
    then show "\<exists>t'. paf3_pixel inp t = Some t' \<and> J (Suc x) t'"
      using r by simp
  qed
  then show ?thesis by (auto simp: paf3_row_def J_def)
qed

lemma u32_id: "n < 2 ^ 32 \<Longrightarrow> u32 n = n"
  by (simp add: u32_def)

lemma PackAndFilter3_ok:
  assumes len: "H * W * 3 \<le> length (pixels d)" "H * W * 3 \<le> length out" "H * W * 3 < 2 ^ 32"
    and d: "HeightPixels d = H" "WidthPixels d = W"
  shows "\<exists>out'. PackAndFilter3 d out = Some out' \<and> length out' = length out
           \<and> planar3 W (H * W) (pixels d) out' (H * W)"
proof -
  define pb where "pb = H * W"
  define K where "K = (\<lambda>y (t :: nat \<times> nat \<times> nat \<times> nat \<times> byte list). case t of (ip, py, pu, pv, ob) \<Rightarrow>
      ip = y * W * 3 \<and> py = y * W \<and> pu = pb + y * W \<and> pv = pb * 2 + y * W
    \<and> length ob = length out \<and> planar3 W pb (pixels d) ob (y * W))"
  have "\<exists>s'. for_upto H (\<lambda>y. paf3_row W (pixels d)) (0, 0, pb, pb * 2, out) = Some s' \<and> K H s'"
  proof (rule for_upto_rule)
    show "K 0 (0, 0, pb, pb * 2, out)" by (simp add: K_def planar3_def)
  next
    fix y t assume y: "y < H" and t: "K y t"
    obtain ip py pu pv ob where [simp]: "t = (ip, py, pu, pv, ob)" by (cases t)
    from t have ip: "ip = y * W * 3" "py = y * W" "pu = pb + y * W" "pv = pb * 2 + y * W"
      and lo: "length ob = length out" and fo: "planar3 W pb (pixels d) ob (y * W)"
      by (auto simp: K_def)
    have le: "Suc y * W \<le> H * W" using y by (intro mult_le_mono1) simp
    then have "Suc y * W * 3 \<le> H * W * 3" by (rule mult_le_mono1)
    then have b: "(y * W + W) * 3 \<le> length (pixels d)" "pb * 3 \<le> length ob" "y * W + W \<le> pb"
      using len lo le by (simp_all add: pb_def)
    from paf3_row_ok[OF b _ fo] obtain ob' where
      "paf3_row W (pixels d) (y * W * 3, y * W, pb + y * W, pb * 2 + y * W, ob)
         = Some ((y * W + W) * 3, y * W + W, pb + (y * W + W), pb * 2 + (y * W + W), ob')"
      "length ob' = length ob" "planar3 W pb (pixels d) ob' (y * W + W)" by auto
    then show "\<exists>t'. paf3_row W (pixels d) t = Some t' \<and> K (Suc y) t'"
      using ip lo by (simp add: K_def add.commute)
  qed
  moreover have "u32 (W * H) = pb" "u32 (pb * 2) = pb * 2"
    using len(3) by (simp_all add: pb_def u32_id mult.commute)
  ultimately show ?thesis by (auto simp: PackAndFilter3_def K_def d Let_def pb_def)
qed

lemma uau3_row_ok:
  assumes len: "pb * 3 \<le> length inb" "(M + W) * 3 \<le> length out" "M + W \<le> pb"
    and M: "M mod W = 0" and f: "planar3 W pb img inb (M + W)" and r: "restored 3 img out M"
  shows "\<exists>out'. uau3_row W inb (M, pb + M, pb * 2 + M, M * 3, out)
             = Some (M + W, pb + (M + W), pb * 2 + (M + W), (M + W) * 3, out')
           \<and> length out' = length out \<and> restored 3 img out' (M + W)"
proof -
  define J where "J = (\<lambda>x (t :: nat \<times> nat \<times> nat \<times> nat \<times> byte \<times> byte \<times> byte \<times> byte list).
    case t of (iy, iu, iv, op, p0, p1, p2, ob) \<Rightarrow>
      op = (M + x) * 3 \<and> iy = M + x \<and> iu = pb + (M + x) \<and> iv = pb * 2 + (M + x)
    \<and> p0 = (if x = 0 then 0 else img ! ((M + x - 1) * 3))
    \<and> p1 = (if x = 0 then 0 else img ! ((M + x - 1) * 3 + 1))
    \<and> p2 = (if x = 0 then 0 else img ! ((M + x - 1) * 3 + 2))
    \<and> length ob = length out \<and> restored 3 img ob (M + x))"
  have "\<exists>s'. for_upto W (\<lambda>x. uau3_pixel inb) (M, pb + M, pb * 2 + M, M * 3, 0, 0, 0, out) = Some s' \<and> J W s'"
  proof (rule for_upto_rule)
    show "J 0 (M, pb + M, pb * 2 + M, M * 3, 0, 0, 0, out)" using r by (simp add: J_def)
  next
    fix x t assume x: "x < W" and t: "J x t"
    obtain iy iu iv op p0 p1 p2 ob where [simp]: "t = (iy, iu, iv, op, p0, p1, p2, ob)"
      by (cases t) auto
    from t have ip: "op = (M + x) * 3" "iy = M + x" "iu = pb + (M + x)" "iv = pb * 2 + (M + x)"
      and pv: "p0 = (if x = 0 then 0 else img ! ((M + x - 1) * 3))"
              "p1 = (if x = 0 then 0 else img ! ((M + x - 1) * 3 + 1))"
              "p2 = (if x = 0 then 0 else img ! ((M + x - 1) * 3 + 2))"
      and lo: "length ob = length out" and fo: "restored 3 img ob (M + x)"
      by (auto simp: J_def)
    have "(M + x) mod W = (M mod W + x) mod W" by (simp add: mod_add_left_eq)
    then have modx: "(M + x) mod W = 0 \<longleftrightarrow> x = 0"
      using M x by simp
    have b: "(M + x) * 3 + 2 < length ob" "M + x < pb" "pb * 2 + (M + x) < length inb"
      using len lo x by simp_all
    have "M + x < M + W" using x by simp
    from f[unfolded planar3_def, rule_format, OF this]
    have enc: "inb ! (M + x) = img ! ((M + x) * 3 + 2) - p2"
         "inb ! (pb + (M + x)) = (img ! ((M + x) * 3 + 1) - p1) - (img ! ((M + x) * 3 + 2) - p2)"
         "inb ! (pb * 2 + (M + x)) = (img ! ((M + x) * 3 + 1) - p1) - (img ! ((M + x) * 3) - p0)"
      using pv modx by (simp_all add: Let_def)
    define ob' where "ob' = ob[(M + x) * 3 := img ! ((M + x) * 3), (M + x) * 3 + 1 := img ! ((M + x) * 3 + 1),
                               (M + x) * 3 + 2 := img ! ((M + x) * 3 + 2)]"
    have r: "uau3_pixel inb t = Some (M + x + 1, pb + (M + x) + 1, pb * 2 + (M + x) + 1, (M + x) * 3 + 3,
                img ! ((M + x) * 3), img ! ((M + x) * 3 + 1), img ! ((M + x) * 3 + 2), ob')"
      using b ip by (simp add: uau3_pixel_def rd_Some wr_Some ob'_def enc Let_def)
    have "restored 3 img ob' (Suc (M + x))"
      unfolding restored_def
    proof (intro allI impI)
      fix m c :: nat assume m: "m < Suc (M + x)" and c: "c < 3"
      show "ob' ! (m * 3 + c) = img ! (m * 3 + c)"
      proof (cases "m = M + x")
        case True
        have "c = 0 \<or> c = 1 \<or> c = 2" using c by auto
        then show ?thesis using True b by (auto simp: ob'_def)
      next
        case False
        then have "m * 3 + c < (M + x) * 3" using m c by simp
        then have "ob' ! (m * 3 + c) = ob ! (m * 3 + c)" by (simp add: ob'_def)
        then show ?thesis using fo False m c by (simp add: restored_def)
      qed
    qed
    then have "J (Suc x) (M + x + 1, pb + (M + x) + 1, pb * 2 + (M + x) + 1, (M + x) * 3 + 3,
                img ! ((M + x) * 3), img ! ((M + x) * 3 + 1), img ! ((M + x) * 3 + 2), ob')"
      using lo by (simp add: J_def ob'_def)
    then show "\<exists>t'. uau3_pixel inb t = Some t' \<and> J (Suc x) t'"
      using r by simp
  qed
  then show ?thesis by (auto simp: uau3_row_def J_def)
qed

lemma planar3_mono: "planar3 W pb img inb n \<Longrightarrow> m \<le> n \<Longrightarrow> planar3 W pb img inb m"
  by (simp add: planar3_def)

lemma UnpackAndUnfilter3_ok:
  assumes len: "H * W * 3 \<le> length inb" "H * W * 3 \<le> length (pixels d)" "H * W * 3 < 2 ^ 32"
    and d: "HeightPixels d = H" "WidthPixels d = W"
    and f: "planar3 W (H * W) img inb (H * W)"
  shows "\<exists>out'. UnpackAndUnfilter3 inb d = Some out' \<and> length out' = length (pixels d)
           \<and> restored 3 img out' (H * W)"
proof -
  define pb where "pb = H * W"
  define K where "K = (\<lambda>y (t :: nat \<times> nat \<times> nat \<times> nat \<times> byte list). case t of (iy, iu, iv, op, ob) \<Rightarrow>
      op = y * W * 3 \<and> iy = y * W \<and> iu = pb + y * W \<and> iv = pb * 2 + y * W
    \<and> length ob = length (pixels d) \<and> restored 3 img ob (y * W))"
  have "\<exists>s'. for_upto H (\<lambda>y. uau3_row W inb) (0, pb, pb * 2, 0, pixels d) = Some s' \<and> K H s'"
  proof (rule for_upto_rule)
    show "K 0 (0, pb, pb * 2, 0, pixels d)" by (simp add: K_def restored_def)
  next
    fix y t assume y: "y < H" and t: "K y t"
    obtain iy iu iv op ob where [simp]: "t = (iy, iu, iv, op, ob)" by (cases t)
    from t have ip: "op = y * W * 3" "iy = y * W" "iu = pb + y * W" "iv = pb * 2 + y * W"
      and lo: "length ob = length (pixels d)" and fo: "restored 3 img ob (y * W)"
      by (auto simp: K_def)
    have le: "Suc y * W \<le> H * W" using y by (intro mult_le_mono1) simp
    then have "Suc y * W * 3 \<le> H * W * 3" by (rule mult_le_mono1)
    then have b: "pb * 3 \<le> length inb" "(y * W + W) * 3 \<le> length ob" "y * W + W \<le> pb"
      using len lo le by (simp_all add: pb_def)
    have f': "planar3 W pb img inb (y * W + W)"
      using planar3_mono[OF f] le by (simp add: add.commute pb_def)
    from uau3_row_ok[OF b _ f' fo] obtain ob' where
      "uau3_row W inb (y * W, pb + y * W, pb * 2 + y * W, y * W * 3, ob)
         = Some (y * W + W, pb + (y * W + W), pb * 2 + (y * W + W), (y * W + W) * 3, ob')"
      "length ob' = length ob" "restored 3 img ob' (y * W + W)" by auto
    then show "\<exists>t'. uau3_row W inb t = Some t' \<and> K (Suc y) t'"
      using ip lo by (simp add: K_def add.commute)
  qed
  moreover have "u32 (W * H) = pb" "u32 (pb * 2) = pb * 2"
    using len(3) by (simp_all add: pb_def u32_id mult.commute)
  ultimately show ?thesis by (auto simp: UnpackAndUnfilter3_def K_def d Let_def pb_def)
qed

lemma planar4_Suc:
  "planar4 w pb img out (Suc n) \<longleftrightarrow> planar4 w pb img out n \<and>
     (let r = img ! (n * 4) - (if n mod w = 0 then 0 else img ! ((n - 1) * 4));
          g = img ! (n * 4 + 1) - (if n mod w = 0 then 0 else img ! ((n - 1) * 4 + 1));
          b = img ! (n * 4 + 2) - (if n mod w = 0 then 0 else img ! ((n - 1) * 4 + 2));
          a = img ! (n * 4 + 3) - (if n mod w = 0 then 0 else img ! ((n - 1) * 4 + 3))
      in out ! n = b \<and> out ! (pb + n) = g - b \<and> out ! (pb * 2 + n) = g - r
         \<and> out ! (pb * 3 + n) = a)"
  by (auto simp: planar4_def less_Suc_eq)

lemma planar4_update:
  assumes "planar4 w pb img out n" "n \<le> i" "i < pb"
  shows "planar4 w pb img (out[i := a, pb + i := b, pb * 2 + i := c, pb * 3 + i := e]) n"
  using assms by (auto simp: planar4_def Let_def)

lemma planar4_mono: "planar4 W pb img inb n \<Longrightarrow> m \<le> n \<Longrightarrow> planar4 W pb img inb m"
  by (simp add: planar4_def)

lemma paf4_row_ok:
  assumes len: "(M + W) * 4 \<le> length inp" "pb * 4 \<le> length out" "M + W \<le> pb"
    and M: "M mod W = 0" and f: "planar4 W pb inp out M"
  shows "\<exists>out'. paf4_row W inp (M * 4, M, pb + M, pb * 2 + M, pb * 3 + M, out)
             = Some ((M + W) * 4, M + W, pb + (M + W), pb * 2 + (M + W), pb * 3 + (M + W), out')
           \<and> length out' = length out \<and> planar4 W pb inp out' (M + W)"
proof -
  define J where "J = (\<lambda>x (t :: nat \<times> nat \<times> nat \<times> nat \<times> nat \<times> byte \<times> byte \<times> byte \<times> byte \<times> byte list).
    case t of (ip, py, pu, pv, pa, p0, p1, p2, p3, ob) \<Rightarrow>
      ip = (M + x) * 4 \<and> py = M + x \<and> pu = pb + (M + x) \<and> pv = pb * 2 + (M + x)
    \<and> pa = pb * 3 + (M + x)
    \<and> p0 = (if x = 0 then 0 else inp ! ((M + x - 1) * 4))
    \<and> p1 = (if x = 0 then 0 else inp ! ((M + x - 1) * 4 + 1))
    \<and> p2 = (if x = 0 then 0 else inp ! ((M + x - 1) * 4 + 2))
    \<and> p3 = (if x = 0 then 0 else inp ! ((M + x - 1) * 4 + 3))
    \<and> length ob = length out \<and> planar4 W pb inp ob (M + x))"
  have "\<exists>s'. for_upto W (\<lambda>x. paf4_pixel inp) (M * 4, M, pb + M, pb * 2 + M, pb * 3 + M, 0, 0, 0, 0, out)
          = Some s' \<and> J W s'"
  proof (rule for_upto_rule)
    show "J 0 (M * 4, M, pb + M, pb * 2 + M, pb * 3 + M, 0, 0, 0, 0, out)" using f by (simp add: J_def)
  next
    fix x t assume x: "x < W" and t: "J x t"
    obtain ip py pu pv pa p0 p1 p2 p3 ob where [simp]: "t = (ip, py, pu, pv, pa, p0, p1, p2, p3, ob)"
      by (cases t) auto
    from t have ip: "ip = (M + x) * 4" "py = M + x" "pu = pb + (M + x)" "pv = pb * 2 + (M + x)"
         "pa = pb * 3 + (M + x)"
      and pv: "p0 = (if x = 0 then 0 else inp ! ((M + x - 1) * 4))"
              "p1 = (if x = 0 then 0 else inp ! ((M + x - 1) * 4 + 1))"
              "p2 = (if x = 0 then 0 else inp ! ((M + x - 1) * 4 + 2))"
              "p3 = (if x = 0 then 0 else inp ! ((M + x - 1) * 4 + 3))"
      and lo: "length ob = length out" and fo: "planar4 W pb inp ob (M + x)"
      by (auto simp: J_def)
    have "(M + x) mod W = (M mod W + x) mod W" by (simp add: mod_add_left_eq)
    then have modx: "(M + x) mod W = 0 \<longleftrightarrow> x = 0"
      using M x by simp
    have b: "(M + x) * 4 + 3 < length inp" "M + x < pb" "pb * 3 + (M + x) < length ob"
      using len lo x by simp_all
    define r g bb a where "r = inp ! ((M + x) * 4) - p0" and "g = inp ! ((M + x) * 4 + 1) - p1"
      and "bb = inp ! ((M + x) * 4 + 2) - p2" and "a = inp ! ((M + x) * 4 + 3) - p3"
    define ob' where "ob' = ob[M + x := bb, pb + (M + x) := g - bb, pb * 2 + (M + x) := g - r,
                               pb * 3 + (M + x) := a]"
    have r: "paf4_pixel inp t = Some ((M + x) * 4 + 4, M + x + 1, pb + (M + x) + 1, pb * 2 + (M + x) + 1,
                pb * 3 + (M + x) + 1,
                inp ! ((M + x) * 4), inp ! ((M + x) * 4 + 1), inp ! ((M + x) * 4 + 2),
                inp ! ((M + x) * 4 + 3), ob')"
      using b ip by (simp add: paf4_pixel_def rd_Some wr_Some ob'_def r_def g_def bb_def a_def Let_def)
    have "planar4 W pb inp ob' (M + x)"
      unfolding ob'_def using fo b by (intro planar4_update) simp_all
    moreover have "ob' ! (M + x) = bb" "ob' ! (pb + (M + x)) = g - bb" "ob' ! (pb * 2 + (M + x)) = g - r"
         "ob' ! (pb * 3 + (M + x)) = a"
      using b by (simp_all add: ob'_def)
    ultimately have "planar4 W pb inp ob' (Suc (M + x))"
      using pv modx by (simp add: planar4_Suc Let_def r_def g_def bb_def a_def)
    then have "J (Suc x) ((M + x) * 4 + 4, M + x + 1, pb + (M + x) + 1, pb * 2 + (M + x) + 1,
                pb * 3 + (M + x) + 1,
                inp ! ((M + x) * 4), inp ! ((M + x) * 4 + 1), inp ! ((M + x) * 4 + 2),
                inp ! ((M + x) * 4 + 3), ob')"
      using lo by (simp add: J_def ob'_def)
    then show "\<exists>t'. paf4_pixel inp t = Some t' \<and> J (Suc x) t'"
      using r by simp
  qed
  then show ?thesis by (auto simp: paf4_row_def J_def)
qed

lemma PackAndFilter4_ok:
  assumes len: "H * W * 4 \<le> length (pixels d)" "H * W * 4 \<le> length out" "H * W * 4 < 2 ^ 32"
    and d: "HeightPixels d = H" "WidthPixels d = W"
  shows "\<exists>out'. PackAndFilter4 d out = Some out' \<and> length out' = length out
           \<and> planar4 W (H * W) (pixels d) out' (H * W)"
proof -
  define pb where "pb = H * W"
  define K where "K = (\<lambda>y (t :: nat \<times> nat \<times> nat \<times> nat \<times> nat \<times> byte list).
    case t of (ip, py, pu, pv, pa, ob) \<Rightarrow>
      ip = y * W * 4 \<and> py = y * W \<and> pu = pb + y * W \<and> pv = pb * 2 + y * W \<and> pa = pb * 3 + y * W
    \<and> length ob = length out \<and> planar4 W pb (pixels d) ob (y * W))"
  have "\<exists>s'. for_upto H (\<lambda>y. paf4_row W (pixels d)) (0, 0, pb, pb * 2, pb * 3, out) = Some s' \<and> K H s'"
  proof (rule for_upto_rule)
    show "K 0 (0, 0, pb, pb * 2, pb * 3, out)" by (simp add: K_def planar4_def)
  next
    fix y t assume y: "y < H" and t: "K y t"
    obtain ip py pu pv pa ob where [simp]: "t = (ip, py, pu, pv, pa, ob)" by (cases t)
    from t have ip: "ip = y * W * 4" "py = y * W" "pu = pb + y * W" "pv = pb * 2 + y * W"
        "pa = pb * 3 + y * W"
      and lo: "length ob = length out" and fo: "planar4 W pb (pixels d) ob (y * W)"
      by (auto simp: K_def)
    have le: "Suc y * W \<le> H * W" using y by (intro mult_le_mono1) simp
    then have "Suc y * W * 4 \<le> H * W * 4" by (rule mult_le_mono1)
    then have b: "(y * W + W) * 4 \<le> length (pixels d)" "pb * 4 \<le> length ob" "y * W + W \<le> pb"
      using len lo le by (simp_all add: pb_def)
    from paf4_row_ok[OF b _ fo] obtain ob' where
      "paf4_row W (pixels d) (y * W * 4, y * W, pb + y * W, pb * 2 + y * W, pb * 3 + y * W, ob)
         = Some ((y * W + W) * 4, y * W + W, pb + (y * W + W), pb * 2 + (y * W + W),
                 pb * 3 + (y * W + W), ob')"
      "length ob' = length ob" "planar4 W pb (pixels d) ob' (y * W + W)" by auto
    then show "\<exists>t'. paf4_row W (pixels d) t = Some t' \<and> K (Suc y) t'"
      using ip lo by (simp add: K_def add.commute)
  qed
  moreover have "u32 (W * H) = pb" "u32 (pb * 2) = pb * 2" "u32 (pb * 3) = pb * 3"
    using len(3) by (simp_all add: pb_def u32_id mult.commute)
  ultimately show ?thesis by (auto simp: PackAndFilter4_def K_def d Let_def pb_def)
qed

lemma uau4_row_ok:
  assumes len: "pb * 4 \<le> length inb" "(M + W) * 4 \<le> length out" "M + W \<le> pb"
    and M: "M mod W = 0" and f: "planar4 W pb img inb (M + W)" and r: "restored 4 img out M"
  shows "\<exists>out'. uau4_row W inb (M, pb + M, pb * 2 + M, pb * 3 + M, M * 4, out)
             = Some (M + W, pb + (M + W), pb * 2 + (M + W), pb * 3 + (M + W), (M + W) * 4, out')
           \<and> length out' = length out \<and> restored 4 img out' (M + W)"
proof -
  define J where "J = (\<lambda>x (t :: nat \<times> nat \<times> nat \<times> nat \<times> nat \<times> byte \<times> byte \<times> byte \<times> byte \<times> byte list).
    case t of (iy, iu, iv, ia, op, p0, p1, p2, p3, ob) \<Rightarrow>
      op = (M + x) * 4 \<and> iy = M + x \<and> iu = pb + (M + x) \<and> iv = pb * 2 + (M + x)
    \<and> ia = pb * 3 + (M + x)
    \<and> p0 = (if x = 0 then 0 else img ! ((M + x - 1) * 4))
    \<and> p1 = (if x = 0 then 0 else img ! ((M + x - 1) * 4 + 1))
    \<and> p2 = (if x = 0 then 0 else img ! ((M + x - 1) * 4 + 2))
    \<and> p3 = (if x = 0 then 0 else img ! ((M + x - 1) * 4 + 3))
    \<and> length ob = length out \<and> restored 4 img ob (M + x))"
  have "\<exists>s'. for_upto W (\<lambda>x. uau4_pixel inb) (M, pb + M, pb * 2 + M, pb * 3 + M, M * 4, 0, 0, 0, 0, out)
          = Some s' \<and> J W s'"
  proof (rule for_upto_rule)
    show "J 0 (M, pb + M, pb * 2 + M, pb * 3 + M, M * 4, 0, 0, 0, 0, out)" using r by (simp add: J_def)
  next
    fix x t assume x: "x < W" and t: "J x t"
    obtain iy iu iv ia op p0 p1 p2 p3 ob where [simp]: "t = (iy, iu, iv, ia, op, p0, p1, p2, p3, ob)"
      by (cases t) auto
    from t have ip: "op = (M + x) * 4" "iy = M + x" "iu = pb + (M + x)" "iv = pb * 2 + (M + x)"
         "ia = pb * 3 + (M + x)"
      and pv: "p0 = (if x = 0 then 0 else img ! ((M + x - 1) * 4))"
              "p1 = (if x = 0 then 0 else img ! ((M + x - 1) * 4 + 1))"
              "p2 = (if x = 0 then 0 else img ! ((M + x - 1) * 4 + 2))"
              "p3 = (if x = 0 then 0 else img ! ((M + x - 1) * 4 + 3))"
      and lo: "length ob = length out" and fo: "restored 4 img ob (M + x)"
      by (auto simp: J_def)
    have "(M + x) mod W = (M mod W + x) mod W" by (simp add: mod_add_left_eq)
    then have modx: "(M + x) mod W = 0 \<longleftrightarrow> x = 0"
      using M x by simp
    have b: "(M + x) * 4 + 3 < length ob" "M + x < pb" "pb * 3 + (M + x) < length inb"
      using len lo x by simp_all
    have "M + x < M + W" using x by simp
    from f[unfolded planar4_def, rule_format, OF this]
    have enc: "inb ! (M + x) = img ! ((M + x) * 4 + 2) - p2"
         "inb ! (pb + (M + x)) = (img ! ((M + x) * 4 + 1) - p1) - (img ! ((M + x) * 4 + 2) - p2)"
         "inb ! (pb * 2 + (M + x)) = (img ! ((M + x) * 4 + 1) - p1) - (img ! ((M + x) * 4) - p0)"
         "inb ! (pb * 3 + (M + x)) = img ! ((M + x) * 4 + 3) - p3"
      using pv modx by (simp_all add: Let_def)
    define ob' where "ob' = ob[(M + x) * 4 := img ! ((M + x) * 4), (M + x) * 4 + 1 := img ! ((M + x) * 4 + 1),
                               (M + x) * 4 + 2 := img ! ((M + x) * 4 + 2),
                               (M + x) * 4 + 3 := img ! ((M + x) * 4 + 3)]"
    have r: "uau4_pixel inb t = Some (M + x + 1, pb + (M + x) + 1, pb * 2 + (M + x) + 1,
                pb * 3 + (M + x) + 1, (M + x) * 4 + 4,
                img ! ((M + x) * 4), img ! ((M + x) * 4 + 1), img ! ((M + x) * 4 + 2),
                img ! ((M + x) * 4 + 3), ob')"
      using b ip by (simp add: uau4_pixel_def rd_Some wr_Some ob'_def enc Let_def)
    have "restored 4 img ob' (Suc (M + x))"
      unfolding restored_def
    proof (intro allI impI)
      fix m c :: nat assume m: "m < Suc (M + x)" and c: "c < 4"
      show "ob' ! (m * 4 + c) = img ! (m * 4 + c)"
      proof (cases "m = M + x")
        case True
        have "c = 0 \<or> c = 1 \<or> c = 2 \<or> c = 3" using c by auto
        then show ?thesis using True b by (auto simp: ob'_def)
      next
        case False
        then have "m * 4 + c < (M + x) * 4" using m c by simp
        then have "ob' ! (m * 4 + c) = ob ! (m * 4 + c)" by (simp add: ob'_def)
        then show ?thesis using fo False m c by (simp add: restored_def)
      qed
    qed
    then have "J (Suc x) (M + x + 1, pb + (M + x) + 1, pb * 2 + (M + x) + 1,
                pb * 3 + (M + x) + 1, (M + x) * 4 + 4,
                img ! ((M + x) * 4), img ! ((M + x) * 4 + 1), img ! ((M + x) * 4 + 2),
                img ! ((M + x) * 4 + 3), ob')"
      using lo by (simp add: J_def ob'_def)
    then show "\<exists>t'. uau4_pixel inb t = Some t' \<and> J (Suc x) t'"
      using r by simp
  qed
  then show ?thesis by (auto simp: uau4_row_def J_def)
qed

lemma UnpackAndUnfilter4_ok:
  assumes len: "H * W * 4 \<le> length inb" "H * W * 4 \<le> length (pixels d)" "H * W * 4 < 2 ^ 32"
    and d: "HeightPixels d = H" "WidthPixels d = W"
    and f: "planar4 W (H * W) img inb (H * W)"
  shows "\<exists>out'. UnpackAndUnfilter4 inb d = Some out' \<and> length out' = length (pixels d)
           \<and> restored 4 img out' (H * W)"
proof -
  define pb where "pb = H * W"
  define K where "K = (\<lambda>y (t :: nat \<times> nat \<times> nat \<times> nat \<times> nat \<times> byte list).
    case t of (iy, iu, iv, ia, op, ob) \<Rightarrow>
      op = y * W * 4 \<and> iy = y * W \<and> iu = pb + y * W \<and> iv = pb * 2 + y * W \<and> ia = pb * 3 + y * W
    \<and> length ob = length (pixels d) \<and> restored 4 img ob (y * W))"
  have "\<exists>s'. for_upto H (\<lambda>y. uau4_row W inb) (0, pb, pb * 2, pb * 3, 0, pixels d) = Some s' \<and> K H s'"
  proof (rule for_upto_rule)
    show "K 0 (0, pb, pb * 2, pb * 3, 0, pixels d)" by (simp add: K_def restored_def)
  next
    fix y t assume y: "y < H" and t: "K y t"
    obtain iy iu iv ia op ob where [simp]: "t = (iy, iu, iv, ia, op, ob)" by (cases t)
    from t have ip: "op = y * W * 4" "iy = y * W" "iu = pb + y * W" "iv = pb * 2 + y * W"
        "ia = pb * 3 + y * W"
      and lo: "length ob = length (pixels d)" and fo: "restored 4 img ob (y * W)"
      by (auto simp: K_def)
    have le: "Suc y * W \<le> H * W" using y by (intro mult_le_mono1) simp
    then have "Suc y * W * 4 \<le> H * W * 4" by (rule mult_le_mono1)
    then have b: "pb * 4 \<le> length inb" "(y * W + W) * 4 \<le> length ob" "y * W + W \<le> pb"
      using len lo le by (simp_all add: pb_def)
    have f': "planar4 W pb img inb (y * W + W)"
      using planar4_mono[OF f] le by (simp add: add.commute pb_def)
    from uau4_row_ok[OF b _ f' fo] obtain ob' where
      "uau4_row W inb (y * W, pb + y * W, pb * 2 + y * W, pb * 3 + y * W, y * W * 4, ob)
         = Some (y * W + W, pb + (y * W + W), pb * 2 + (y * W + W), pb * 3 + (y * W + W),
                 (y * W + W) * 4, ob')"
      "length ob' = length ob" "restored 4 img ob' (y * W + W)" by auto
    then show "\<exists>t'. uau4_row W inb t = Some t' \<and> K (Suc y) t'"
      using ip lo by (simp add: K_def add.commute)
  qed
  moreover have "u32 (W * H) = pb" "u32 (pb * 2) = pb * 2" "u32 (pb * 3) = pb * 3"
    using len(3) by (simp_all add: pb_def u32_id mult.commute)
  ultimately show ?thesis by (auto simp: UnpackAndUnfilter4_def K_def d Let_def pb_def)
qed

lemma xggy_even_loop:
  assumes len: "i0 + 2 * n \<le> length inp" "g + n \<le> length out" "a + n \<le> g"
  shows "\<exists>out' p0 p1. for_upto n (\<lambda>x. xggy_even inp) (i0, a, g, 0, 0, out)
            = Some (i0 + 2 * n, a + n, g + n, p0, p1, out')
         \<and> length out' = length out
         \<and> (\<forall>j<n. out' ! (a + j) = inp ! (i0 + 2 * j) - (if j = 0 then 0 else inp ! (i0 + 2 * j - 2))
                \<and> out' ! (g + j) = inp ! (i0 + 2 * j + 1) - (if j = 0 then 0 else inp ! (i0 + 2 * j - 1)))
         \<and> (\<forall>i. \<not> (a \<le> i \<and> i < a + n) \<longrightarrow> \<not> (g \<le> i \<and> i < g + n) \<longrightarrow> out' ! i = out ! i)"
proof -
  define I where "I = (\<lambda>j (t :: nat \<times> nat \<times> nat \<times> byte \<times> byte \<times> byte list).
    case t of (ip, pr, pg, p0, p1, ob) \<Rightarrow>
      ip = i0 + 2 * j \<and> pr = a + j \<and> pg = g + j
    \<and> p0 = (if j = 0 then 0 else inp ! (i0 + 2 * j - 2))
    \<and> p1 = (if j = 0 then 0 else inp ! (i0 + 2 * j - 1))
    \<and> length ob = length out
    \<and> (\<forall>j'<j. ob ! (a + j') = inp ! (i0 + 2 * j') - (if j' = 0 then 0 else inp ! (i0 + 2 * j' - 2))
             \<and> ob ! (g + j') = inp ! (i0 + 2 * j' + 1) - (if j' = 0 then 0 else inp ! (i0 + 2 * j' - 1)))
    \<and> (\<forall>i. \<not> (a \<le> i \<and> i < a + j) \<longrightarrow> \<not> (g \<le> i \<and> i < g + j) \<longrightarrow> ob ! i = out ! i))"
  have "\<exists>s'. for_upto n (\<lambda>x. xggy_even inp) (i0, a, g, 0, 0, out) = Some s' \<and> I n s'"
  proof (rule for_upto_rule)
    show "I 0 (i0, a, g, 0, 0, out)" by (simp add: I_def)
  next
    fix j t assume j: "j < n" and t: "I j t"
    obtain ip pr pg p0 p1 ob where [simp]: "t = (ip, pr, pg, p0, p1, ob)" by (cases t)
    from t have ip: "ip = i0 + 2 * j" "pr = a + j" "pg = g + j"
      and pv: "p0 = (if j = 0 then 0 else inp ! (i0 + 2 * j - 2))"
              "p1 = (if j = 0 then 0 else inp ! (i0 + 2 * j - 1))"
      and lo: "length ob = length out"
      and fo: "\<forall>j'<j. ob ! (a + j') = inp ! (i0 + 2 * j') - (if j' = 0 then 0 else inp ! (i0 + 2 * j' - 2))
             \<and> ob ! (g + j') = inp ! (i0 + 2 * j' + 1) - (if j' = 0 then 0 else inp ! (i0 + 2 * j' - 1))"
      and fr: "\<forall>i. \<not> (a \<le> i \<and> i < a + j) \<longrightarrow> \<not> (g \<le> i \<and> i < g + j) \<longrightarrow> ob ! i = out ! i"
      by (auto simp: I_def)
    have b: "i0 + 2 * j + 1 < length inp" "a + j < length ob" "g + j < length ob" "a + j < g"
      using len lo j by simp_all
    define ob' where "ob' = ob[a + j := inp ! (i0 + 2 * j) - p0, g + j := inp ! (i0 + 2 * j + 1) - p1]"
    have r: "xggy_even inp t = Some (i0 + 2 * j + 2, a + j + 1, g + j + 1,
                inp ! (i0 + 2 * j), inp ! (i0 + 2 * j + 1), ob')"
      using b ip by (simp add: xggy_even_def rd_Some wr_Some ob'_def)
    have n1: "ob' ! (a + j) = inp ! (i0 + 2 * j) - p0" "ob' ! (g + j) = inp ! (i0 + 2 * j + 1) - p1"
      using b by (simp_all add: ob'_def)
    have n2: "ob' ! i = ob ! i" if "i \<noteq> a + j" "i \<noteq> g + j" for i
      using that by (simp add: ob'_def)
    have "\<forall>j'<Suc j. ob' ! (a + j') = inp ! (i0 + 2 * j') - (if j' = 0 then 0 else inp ! (i0 + 2 * j' - 2))
             \<and> ob' ! (g + j') = inp ! (i0 + 2 * j' + 1) - (if j' = 0 then 0 else inp ! (i0 + 2 * j' - 1))"
    proof (intro allI impI)
      fix j' assume "j' < Suc j"
      then consider "j' = j" | "j' < j" by linarith
      then show "ob' ! (a + j') = inp ! (i0 + 2 * j') - (if j' = 0 then 0 else inp ! (i0 + 2 * j' - 2))
             \<and> ob' ! (g + j') = inp ! (i0 + 2 * j' + 1) - (if j' = 0 then 0 else inp ! (i0 + 2 * j' - 1))"
      proof cases
        case 1 then show ?thesis using n1 pv by simp
      next
        case 2
        then have "a + j' \<noteq> a + j" "a + j' \<noteq> g + j" "g + j' \<noteq> a + j" "g + j' \<noteq> g + j"
          using b by simp_all
        then show ?thesis using n2 fo 2 by simp
      qed
    qed
    moreover have "\<forall>i. \<not> (a \<le> i \<and> i < a + Suc j) \<longrightarrow> \<not> (g \<le> i \<and> i < g + Suc j) \<longrightarrow> ob' ! i = out ! i"
    proof (intro allI impI)
      fix i assume "\<not> (a \<le> i \<and> i < a + Suc j)" "\<not> (g \<le> i \<and> i < g + Suc j)"
      then have "i \<noteq> a + j" "i \<noteq> g + j" "\<not> (a \<le> i \<and> i < a + j)" "\<not> (g \<le> i \<and> i < g + j)"
        by auto
      then show "ob' ! i = out ! i" using n2 fr by simp
    qed
    ultimately have "I (Suc j) (i0 + 2 * j + 2, a + j + 1, g + j + 1,
                inp ! (i0 + 2 * j), inp ! (i0 + 2 * j + 1), ob')"
      using lo unfolding I_def by (simp add: ob'_def)
    then show "\<exists>t'. xggy_even inp t = Some t' \<and> I (Suc j) t'"
      using r by simp
  qed
  then obtain s' where s: "for_upto n (\<lambda>x. xggy_even inp) (i0, a, g, 0, 0, out) = Some s'" "I n s'"
    by blast
  obtain ip pr pg p0 p1 ob where "s' = (ip, pr, pg, p0, p1, ob)" by (cases s')
  with s show ?thesis unfolding I_def
    by (intro exI[of _ ob] exI[of _ p0] exI[of _ p1]) simp
qed

lemma xggy_odd_loop:
  assumes len: "i1 + 2 * n \<le> length inp" "g + n \<le> length out" "b + n \<le> g"
  shows "\<exists>out' p0 p1. for_upto n (\<lambda>x. xggy_odd inp) (i1, b, g, 0, 0, out)
            = Some (i1 + 2 * n, b + n, g + n, p0, p1, out')
         \<and> length out' = length out
         \<and> (\<forall>j<n. out' ! (b + j) = inp ! (i1 + 2 * j + 1) - (if j = 0 then 0 else inp ! (i1 + 2 * j - 1))
                \<and> out' ! (g + j) = inp ! (i1 + 2 * j) - (if j = 0 then 0 else inp ! (i1 + 2 * j - 2)))
         \<and> (\<forall>i. \<not> (b \<le> i \<and> i < b + n) \<longrightarrow> \<not> (g \<le> i \<and> i < g + n) \<longrightarrow> out' ! i = out ! i)"
proof -
  define I where "I = (\<lambda>j (t :: nat \<times> nat \<times> nat \<times> byte \<times> byte \<times> byte list).
    case t of (ip, pr, pg, p0, p1, ob) \<Rightarrow>
      ip = i1 + 2 * j \<and> pr = b + j \<and> pg = g + j
    \<and> p0 = (if j = 0 then 0 else inp ! (i1 + 2 * j - 2))
    \<and> p1 = (if j = 0 then 0 else inp ! (i1 + 2 * j - 1))
    \<and> length ob = length out
    \<and> (\<forall>j'<j. ob ! (b + j') = inp ! (i1 + 2 * j' + 1) - (if j' = 0 then 0 else inp ! (i1 + 2 * j' - 1))
             \<and> ob ! (g + j') = inp ! (i1 + 2 * j') - (if j' = 0 then 0 else inp ! (i1 + 2 * j' - 2)))
    \<and> (\<forall>i. \<not> (b \<le> i \<and> i < b + j) \<longrightarrow> \<not> (g \<le> i \<and> i < g + j) \<longrightarrow> ob ! i = out ! i))"
  have "\<exists>s'. for_upto n (\<lambda>x. xggy_odd inp) (i1, b, g, 0, 0, out) = Some s' \<and> I n s'"
  proof (rule for_upto_rule)
    show "I 0 (i1, b, g, 0, 0, out)" by (simp add: I_def)
  next
    fix j t assume j: "j < n" and t: "I j t"
    obtain ip pr pg p0 p1 ob where [simp]: "t = (ip, pr, pg, p0, p1, ob)" by (cases t)
    from t have ip: "ip = i1 + 2 * j" "pr = b + j" "pg = g + j"
      and pv: "p0 = (if j = 0 then 0 else inp ! (i1 + 2 * j - 2))"
              "p1 = (if j = 0 then 0 else inp ! (i1 + 2 * j - 1))"
      and lo: "length ob = length out"
      and fo: "\<forall>j'<j. ob ! (b + j') = inp ! (i1 + 2 * j' + 1) - (if j' = 0 then 0 else inp ! (i1 + 2 * j' - 1))
             \<and> ob ! (g + j') = inp ! (i1 + 2 * j') - (if j' = 0 then 0 else inp ! (i1 + 2 * j' - 2))"
      and fr: "\<forall>i. \<not> (b \<le> i \<and> i < b + j) \<longrightarrow> \<not> (g \<le> i \<and> i < g + j) \<longrightarrow> ob ! i = out ! i"
      by (auto simp: I_def)
    have bd: "i1 + 2 * j + 1 < length inp" "b + j < length ob" "g + j < length ob" "b + j < g"
      using len lo j by simp_all
    define ob' where "ob' = ob[b + j := inp ! (i1 + 2 * j + 1) - p1, g + j := inp ! (i1 + 2 * j) - p0]"
    have r: "xggy_odd inp t = Some (i1 + 2 * j + 2, b + j + 1, g + j + 1,
                inp ! (i1 + 2 * j), inp ! (i1 + 2 * j + 1), ob')"
      using bd ip by (simp add: xggy_odd_def rd_Some wr_Some ob'_def)
    have n1: "ob' ! (b + j) = inp ! (i1 + 2 * j + 1) - p1" "ob' ! (g + j) = inp ! (i1 + 2 * j) - p0"
      using bd by (simp_all add: ob'_def)
    have n2: "ob' ! i = ob ! i" if "i \<noteq> b + j" "i \<noteq> g + j" for i
      using that by (simp add: ob'_def)
    have "\<forall>j'<Suc j. ob' ! (b + j') = inp ! (i1 + 2 * j' + 1) - (if j' = 0 then 0 else inp ! (i1 + 2 * j' - 1))
             \<and> ob' ! (g + j') = inp ! (i1 + 2 * j') - (if j' = 0 then 0 else inp ! (i1 + 2 * j' - 2))"
    proof (intro allI impI)
      fix j' assume "j' < Suc j"
      then consider "j' = j" | "j' < j" by linarith
      then show "ob' ! (b + j') = inp ! (i1 + 2 * j' + 1) - (if j' = 0 then 0 else inp ! (i1 + 2 * j' - 1))
             \<and> ob' ! (g + j') = inp ! (i1 + 2 * j') - (if j' = 0 then 0 else inp ! (i1 + 2 * j' - 2))"
      proof cases
        case 1 then show ?thesis using n1 pv by simp
      next
        case 2
        then have "b + j' \<noteq> b + j" "b + j' \<noteq> g + j" "g + j' \<noteq> b + j" "g + j' \<noteq> g + j"
          using bd by simp_all
        then show ?thesis using n2 fo 2 by simp
      qed
    qed
    moreover have "\<forall>i. \<not> (b \<le> i \<and> i < b + Suc j) \<longrightarrow> \<not> (g \<le> i \<and> i < g + Suc j) \<longrightarrow> ob' ! i = out ! i"
    proof (intro allI impI)
      fix i assume "\<not> (b \<le> i \<and> i < b + Suc j)" "\<not> (g \<le> i \<and> i < g + Suc j)"
      then have "i \<noteq> b + j" "i \<noteq> g + j" "\<not> (b \<le> i \<and> i < b + j)" "\<not> (g \<le> i \<and> i < g + j)"
        by auto
      then show "ob' ! i = out ! i" using n2 fr by simp
    qed
    ultimately have "I (Suc j) (i1 + 2 * j + 2, b + j + 1, g + j + 1,
                inp ! (i1 + 2 * j), inp ! (i1 + 2 * j + 1), ob')"
      using lo unfolding I_def by (simp add: ob'_def)
    then show "\<exists>t'. xggy_odd inp t = Some t' \<and> I (Suc j) t'"
      using r by simp
  qed
  then obtain s' where s: "for_upto n (\<lambda>x. xggy_odd inp) (i1, b, g, 0, 0, out) = Some s'" "I n s'"
    by blast
  obtain ip pr pg p0 p1 ob where "s' = (ip, pr, pg, p0, p1, ob)" by (cases s')
  with s show ?thesis unfolding I_def
    by (intro exI[of _ ob] exI[of _ p0] exI[of _ p1]) simp
qed

lemma xggy_rows_ok:
  assumes w: "half_steps W = w"
    and len: "i0 + 4 * w \<le> length inp" "a + w \<le> b" "b + w \<le> g" "g + 2 * w \<le> length out"
  shows "\<exists>out'. xggy_rows W inp (i0, a, b, g, out) = Some (i0 + 4 * w, a + w, b + w, g + 2 * w, out')
         \<and> length out' = length out \<and> xggy_pair w inp out' i0 a b g
         \<and> (\<forall>i. \<not> (a \<le> i \<and> i < a + w) \<longrightarrow> \<not> (b \<le> i \<and> i < b + w) \<longrightarrow> \<not> (g \<le> i \<and> i < g + 2 * w)
               \<longrightarrow> out' ! i = out ! i)"
proof -
  have e: "i0 + 2 * w \<le> length inp" "g + w \<le> length out" "a + w \<le> g" using len by simp_all
  from xggy_even_loop[OF e] obtain out1 p0 p1 where
    r1: "for_upto w (\<lambda>x. xggy_even inp) (i0, a, g, 0, 0, out) = Some (i0 + 2 * w, a + w, g + w, p0, p1, out1)"
    and l1: "length out1 = length out"
    and f1: "\<forall>j<w. out1 ! (a + j) = inp ! (i0 + 2 * j) - (if j = 0 then 0 else inp ! (i0 + 2 * j - 2))
                \<and> out1 ! (g + j) = inp ! (i0 + 2 * j + 1) - (if j = 0 then 0 else inp ! (i0 + 2 * j - 1))"
    and fr1: "\<forall>i. \<not> (a \<le> i \<and> i < a + w) \<longrightarrow> \<not> (g \<le> i \<and> i < g + w) \<longrightarrow> out1 ! i = out ! i"
    by blast
  have o: "i0 + 2 * w + 2 * w \<le> length inp" "g + w + w \<le> length out1" "b + w \<le> g + w"
    using len l1 by simp_all
  from xggy_odd_loop[OF o] obtain out2 q0 q1 where
    r2: "for_upto w (\<lambda>x. xggy_odd inp) (i0 + 2 * w, b, g + w, 0, 0, out1)
           = Some (i0 + 2 * w + 2 * w, b + w, g + w + w, q0, q1, out2)"
    and l2: "length out2 = length out1"
    and f2: "\<forall>j<w. out2 ! (b + j) = inp ! (i0 + 2 * w + 2 * j + 1)
                     - (if j = 0 then 0 else inp ! (i0 + 2 * w + 2 * j - 1))
                \<and> out2 ! (g + w + j) = inp ! (i0 + 2 * w + 2 * j)
                     - (if j = 0 then 0 else inp ! (i0 + 2 * w + 2 * j - 2))"
    and fr2: "\<forall>i. \<not> (b \<le> i \<and> i < b + w) \<longrightarrow> \<not> (g + w \<le> i \<and> i < g + w + w) \<longrightarrow> out2 ! i = out1 ! i"
    by blast
  have r: "xggy_rows W inp (i0, a, b, g, out) = Some (i0 + 4 * w, a + w, b + w, g + 2 * w, out2)"
    using r1 r2 by (simp add: xggy_rows_def w)
  have keep: "out2 ! (a + j) = out1 ! (a + j)" "out2 ! (g + j) = out1 ! (g + j)" if "j < w" for j
    using fr2 that len by simp_all
  have "xggy_pair w inp out2 i0 a b g"
    unfolding xggy_pair_def using f1 f2 keep by simp
  moreover have "\<forall>i. \<not> (a \<le> i \<and> i < a + w) \<longrightarrow> \<not> (b \<le> i \<and> i < b + w) \<longrightarrow> \<not> (g \<le> i \<and> i < g + 2 * w)
               \<longrightarrow> out2 ! i = out ! i"
  proof (intro allI impI)
    fix i assume "\<not> (a \<le> i \<and> i < a + w)" "\<not> (b \<le> i \<and> i < b + w)" "\<not> (g \<le> i \<and> i < g + 2 * w)"
    then have "out2 ! i = out1 ! i" "out1 ! i = out ! i"
      using fr1 fr2 by auto
    then show "out2 ! i = out ! i" by simp
  qed
  ultimately show ?thesis using r l1 l2 by simp
qed

lemma xggy_pair_frame:
  assumes "xggy_pair w img out i0 a b g"
    and "\<forall>i. (a \<le> i \<and> i < a + w) \<or> (b \<le> i \<and> i < b + w) \<or> (g \<le> i \<and> i < g + 2 * w) \<longrightarrow> out' ! i = out ! i"
  shows "xggy_pair w img out' i0 a b g"
  using assms unfolding xggy_pair_def by simp

lemma PackAndFilterXGGY_ok:
  assumes d: "HeightPixels d = 2 * h" "WidthPixels d = 2 * w"
    and len: "4 * (h * w) \<le> length (pixels d)" "4 * (h * w) \<le> length out" "4 * (h * w) < 2 ^ 32"
  shows "\<exists>out'. PackAndFilterXGGY d out = Some out' \<and> length out' = length out
           \<and> bayer w (h * w) (pixels d) out' h"
proof -
  define pb where "pb = h * w"
  define K where "K = (\<lambda>rr (t :: nat \<times> nat \<times> nat \<times> nat \<times> byte list). case t of (ip, pr, pbl, pg, ob) \<Rightarrow>
      ip = rr * w * 4 \<and> pr = rr * w \<and> pbl = pb + rr * w \<and> pg = pb * 2 + rr * w * 2
    \<and> length ob = length out \<and> bayer w pb (pixels d) ob rr)"
  have hs: "half_steps (2 * w) = w" "half_steps (2 * h) = h" by (simp_all add: half_steps_def)
  have "\<exists>s'. for_upto h (\<lambda>row. xggy_rows (2 * w) (pixels d)) (0, 0, pb, pb * 2, out) = Some s' \<and> K h s'"
  proof (rule for_upto_rule)
    show "K 0 (0, 0, pb, pb * 2, out)" by (simp add: K_def bayer_def)
  next
    fix rr t assume rr: "rr < h" and t: "K rr t"
    obtain ip pr pbl pg ob where [simp]: "t = (ip, pr, pbl, pg, ob)" by (cases t)
    define A where "A = rr * w"
    from t have ip: "ip = A * 4" "pr = A" "pbl = pb + A" "pg = pb * 2 + A * 2"
      and lo: "length ob = length out" and fo: "bayer w pb (pixels d) ob rr"
      by (auto simp: K_def A_def)
    have "Suc rr * w \<le> h * w" using rr by (intro mult_le_mono1) simp
    then have A: "A + w \<le> pb" by (simp add: A_def pb_def)
    have b: "A * 4 + 4 * w \<le> length (pixels d)" "A + w \<le> pb + A" "pb + A + w \<le> pb * 2 + A * 2"
         "pb * 2 + A * 2 + 2 * w \<le> length ob"
      using A len lo unfolding pb_def[symmetric] by simp_all
    from xggy_rows_ok[OF hs(1) b] obtain ob' where
      r: "xggy_rows (2 * w) (pixels d) (A * 4, A, pb + A, pb * 2 + A * 2, ob)
          = Some (A * 4 + 4 * w, A + w, pb + A + w, pb * 2 + A * 2 + 2 * w, ob')"
      and l: "length ob' = length ob"
      and p: "xggy_pair w (pixels d) ob' (A * 4) A (pb + A) (pb * 2 + A * 2)"
      and fr: "\<forall>i. \<not> (A \<le> i \<and> i < A + w) \<longrightarrow> \<not> (pb + A \<le> i \<and> i < pb + A + w)
                 \<longrightarrow> \<not> (pb * 2 + A * 2 \<le> i \<and> i < pb * 2 + A * 2 + 2 * w) \<longrightarrow> ob' ! i = ob ! i"
      by blast
    have "bayer w pb (pixels d) ob' (Suc rr)"
      unfolding bayer_def
    proof (intro allI impI)
      fix r' assume r': "r' < Suc rr"
      show "xggy_pair w (pixels d) ob' (r' * w * 4) (r' * w) (pb + r' * w) (pb * 2 + r' * w * 2)"
      proof (cases "r' = rr")
        case True
        then show ?thesis using p by (simp add: A_def)
      next
        case False
        then have lt: "r' < rr" using r' by simp
        then have "Suc r' * w \<le> rr * w" by (intro mult_le_mono1) simp
        then have A': "r' * w + w \<le> A" by (simp add: A_def)
        have old: "xggy_pair w (pixels d) ob (r' * w * 4) (r' * w) (pb + r' * w) (pb * 2 + r' * w * 2)"
          using fo lt by (simp add: bayer_def)
        show ?thesis
        proof (rule xggy_pair_frame[OF old], intro allI impI)
          fix i assume "r' * w \<le> i \<and> i < r' * w + w \<or> pb + r' * w \<le> i \<and> i < pb + r' * w + w
               \<or> pb * 2 + r' * w * 2 \<le> i \<and> i < pb * 2 + r' * w * 2 + 2 * w"
          then have "\<not> (A \<le> i \<and> i < A + w)" "\<not> (pb + A \<le> i \<and> i < pb + A + w)"
              "\<not> (pb * 2 + A * 2 \<le> i \<and> i < pb * 2 + A * 2 + 2 * w)"
            using A A' by auto
          then show "ob' ! i = ob ! i" using fr by simp
        qed
      qed
    qed
    then have "K (Suc rr) (A * 4 + 4 * w, A + w, pb + A + w, pb * 2 + A * 2 + 2 * w, ob')"
      using l lo by (simp add: K_def A_def algebra_simps)
    then show "\<exists>t'. xggy_rows (2 * w) (pixels d) t = Some t' \<and> K (Suc rr) t'"
      using r ip by simp
  qed
  moreover have "u32 (2 * w * (2 * h)) div 4 = pb" "u32 (pb * 2) = pb * 2"
    using len(3) by (simp_all add: pb_def u32_id mult.commute)
  ultimately show ?thesis by (auto simp: PackAndFilterXGGY_def K_def d Let_def pb_def hs)
qed

lemma unxggy_even_loop:
  assumes len: "a + n \<le> length inb" "g + n \<le> length inb" "o0 + 2 * n \<le> length out"
    and enc: "\<forall>j<n. inb ! (a + j) = img ! (o0 + 2 * j) - (if j = 0 then 0 else img ! (o0 + 2 * j - 2))
                \<and> inb ! (g + j) = img ! (o0 + 2 * j + 1) - (if j = 0 then 0 else img ! (o0 + 2 * j - 1))"
    and pre: "\<forall>i<o0. out ! i = img ! i"
  shows "\<exists>out' p0 p1. for_upto n (\<lambda>x. unxggy_even inb) (a, g, o0, 0, 0, out)
            = Some (a + n, g + n, o0 + 2 * n, p0, p1, out')
         \<and> length out' = length out \<and> (\<forall>i<o0 + 2 * n. out' ! i = img ! i)"
proof -
  define I where "I = (\<lambda>j (t :: nat \<times> nat \<times> nat \<times> byte \<times> byte \<times> byte list).
    case t of (ir, ig, op, p0, p1, ob) \<Rightarrow>
      ir = a + j \<and> ig = g + j \<and> op = o0 + 2 * j
    \<and> p0 = (if j = 0 then 0 else img ! (o0 + 2 * j - 2))
    \<and> p1 = (if j = 0 then 0 else img ! (o0 + 2 * j - 1))
    \<and> length ob = length out \<and> (\<forall>i<o0 + 2 * j. ob ! i = img ! i))"
  have "\<exists>s'. for_upto n (\<lambda>x. unxggy_even inb) (a, g, o0, 0, 0, out) = Some s' \<and> I n s'"
  proof (rule for_upto_rule)
    show "I 0 (a, g, o0, 0, 0, out)" using pre by (simp add: I_def)
  next
    fix j t assume j: "j < n" and t: "I j t"
    obtain ir ig op p0 p1 ob where [simp]: "t = (ir, ig, op, p0, p1, ob)" by (cases t)
    from t have ip: "ir = a + j" "ig = g + j" "op = o0 + 2 * j"
      and pv: "p0 = (if j = 0 then 0 else img ! (o0 + 2 * j - 2))"
              "p1 = (if j = 0 then 0 else img ! (o0 + 2 * j - 1))"
      and lo: "length ob = length out"
      and fo: "\<forall>i<o0 + 2 * j. ob ! i = img ! i"
      by (auto simp: I_def)
    have bd: "a + j < length inb" "g + j < length inb" "o0 + 2 * j + 1 < length ob"
      using len lo j by simp_all
    have e: "inb ! (a + j) + p0 = img ! (o0 + 2 * j)" "inb ! (g + j) + p1 = img ! (o0 + 2 * j + 1)"
      using enc j pv by simp_all
    define ob' where "ob' = ob[o0 + 2 * j := img ! (o0 + 2 * j), o0 + 2 * j + 1 := img ! (o0 + 2 * j + 1)]"
    have r: "unxggy_even inb t = Some (a + j + 1, g + j + 1, o0 + 2 * j + 2,
                img ! (o0 + 2 * j), img ! (o0 + 2 * j + 1), ob')"
      using bd ip e by (simp add: unxggy_even_def rd_Some wr_Some ob'_def)
    have "\<forall>i<o0 + 2 * Suc j. ob' ! i = img ! i"
      using fo bd by (auto simp: ob'_def nth_list_update)
    then have "I (Suc j) (a + j + 1, g + j + 1, o0 + 2 * j + 2,
                img ! (o0 + 2 * j), img ! (o0 + 2 * j + 1), ob')"
      using lo unfolding I_def by (simp add: ob'_def)
    then show "\<exists>t'. unxggy_even inb t = Some t' \<and> I (Suc j) t'"
      using r by simp
  qed
  then obtain s' where s: "for_upto n (\<lambda>x. unxggy_even inb) (a, g, o0, 0, 0, out) = Some s'" "I n s'"
    by blast
  obtain ir ig op p0 p1 ob where "s' = (ir, ig, op, p0, p1, ob)" by (cases s')
  with s show ?thesis unfolding I_def
    by (intro exI[of _ ob] exI[of _ p0] exI[of _ p1]) simp
qed

lemma unxggy_odd_loop:
  assumes len: "b + n \<le> length inb" "g + n \<le> length inb" "o1 + 2 * n \<le> length out"
    and enc: "\<forall>j<n. inb ! (b + j) = img ! (o1 + 2 * j + 1) - (if j = 0 then 0 else img ! (o1 + 2 * j - 1))
                \<and> inb ! (g + j) = img ! (o1 + 2 * j) - (if j = 0 then 0 else img ! (o1 + 2 * j - 2))"
    and pre: "\<forall>i<o1. out ! i = img ! i"
  shows "\<exists>out' p0 p1. for_upto n (\<lambda>x. unxggy_odd inb) (b, g, o1, 0, 0, out)
            = Some (b + n, g + n, o1 + 2 * n, p0, p1, out')
         \<and> length out' = length out \<and> (\<forall>i<o1 + 2 * n. out' ! i = img ! i)"
proof -
  define I where "I = (\<lambda>j (t :: nat \<times> nat \<times> nat \<times> byte \<times> byte \<times> byte list).
    case t of (ib, ig, op, p0, p1, ob) \<Rightarrow>
      ib = b + j \<and> ig = g + j \<and> op = o1 + 2 * j
    \<and> p0 = (if j = 0 then 0 else img ! (o1 + 2 * j - 2))
    \<and> p1 = (if j = 0 then 0 else img ! (o1 + 2 * j - 1))
    \<and> length ob = length out \<and> (\<forall>i<o1 + 2 * j. ob ! i = img ! i))"
  have "\<exists>s'. for_upto n (\<lambda>x. unxggy_odd inb) (b, g, o1, 0, 0, out) = Some s' \<and> I n s'"
  proof (rule for_upto_rule)
    show "I 0 (b, g, o1, 0, 0, out)" using pre by (simp add: I_def)
  next
    fix j t assume j: "j < n" and t: "I j t"
    obtain ib ig op p0 p1 ob where [simp]: "t = (ib, ig, op, p0, p1, ob)" by (cases t)
    from t have ip: "ib = b + j" "ig = g + j" "op = o1 + 2 * j"
      and pv: "p0 = (if j = 0 then 0 else img ! (o1 + 2 * j - 2))"
              "p1 = (if j = 0 then 0 else img ! (o1 + 2 * j - 1))"
      and lo: "length ob = length out"
      and fo: "\<forall>i<o1 + 2 * j. ob ! i = img ! i"
      by (auto simp: I_def)
    have bd: "b + j < length inb" "g + j < length inb" "o1 + 2 * j + 1 < length ob"
      using len lo j by simp_all
    have e: "inb ! (g + j) + p0 = img ! (o1 + 2 * j)" "inb ! (b + j) + p1 = img ! (o1 + 2 * j + 1)"
      using enc j pv by simp_all
    define ob' where "ob' = ob[o1 + 2 * j := img ! (o1 + 2 * j), o1 + 2 * j + 1 := img ! (o1 + 2 * j + 1)]"
    have r: "unxggy_odd inb t = Some (b + j + 1, g + j + 1, o1 + 2 * j + 2,
                img ! (o1 + 2 * j), img ! (o1 + 2 * j + 1), ob')"
      using bd ip e by (simp add: unxggy_odd_def rd_Some wr_Some ob'_def)
    have "\<forall>i<o1 + 2 * Suc j. ob' ! i = img ! i"
      using fo bd by (auto simp: ob'_def nth_list_update)
    then have "I (Suc j) (b + j + 1, g + j + 1, o1 + 2 * j + 2,
                img ! (o1 + 2 * j), img ! (o1 + 2 * j + 1), ob')"
      using lo unfolding I_def by (simp add: ob'_def)
    then show "\<exists>t'. unxggy_odd inb t = Some t' \<and> I (Suc j) t'"
      using r by simp
  qed
  then obtain s' where s: "for_upto n (\<lambda>x. unxggy_odd inb) (b, g, o1, 0, 0, out) = Some s'" "I n s'"
    by blast
  obtain ib ig op p0 p1 ob where "s' = (ib, ig, op, p0, p1, ob)" by (cases s')
  with s show ?thesis unfolding I_def
    by (intro exI[of _ ob] exI[of _ p0] exI[of _ p1]) simp
qed

lemma unxggy_rows_ok:
  assumes w: "half_steps W = w"
    and len: "a + w \<le> length inb" "b + w \<le> length inb" "g + 2 * w \<le> length inb"
        "o0 + 4 * w \<le> length out"
    and enc: "xggy_pair w img inb o0 a b g"
    and pre: "\<forall>i<o0. out ! i = img ! i"
  shows "\<exists>out'. unxggy_rows W inb (a, b, g, o0, out) = Some (a + w, b + w, g + 2 * w, o0 + 4 * w, out')
         \<and> length out' = length out \<and> (\<forall>i<o0 + 4 * w. out' ! i = img ! i)"
proof -
  have e: "a + w \<le> length inb" "g + w \<le> length inb" "o0 + 2 * w \<le> length out" using len by simp_all
  have e1: "\<forall>j<w. inb ! (a + j) = img ! (o0 + 2 * j) - (if j = 0 then 0 else img ! (o0 + 2 * j - 2))
                \<and> inb ! (g + j) = img ! (o0 + 2 * j + 1) - (if j = 0 then 0 else img ! (o0 + 2 * j - 1))"
    using enc by (simp add: xggy_pair_def)
  from unxggy_even_loop[OF e e1 pre] obtain out1 p0 p1 where
    r1: "for_upto w (\<lambda>x. unxggy_even inb) (a, g, o0, 0, 0, out) = Some (a + w, g + w, o0 + 2 * w, p0, p1, out1)"
    and l1: "length out1 = length out"
    and f1: "\<forall>i<o0 + 2 * w. out1 ! i = img ! i"
    by blast
  have o: "b + w \<le> length inb" "g + w + w \<le> length inb" "o0 + 2 * w + 2 * w \<le> length out1"
    using len l1 by simp_all
  have e2: "\<forall>j<w. inb ! (b + j) = img ! (o0 + 2 * w + 2 * j + 1)
                     - (if j = 0 then 0 else img ! (o0 + 2 * w + 2 * j - 1))
                \<and> inb ! (g + w + j) = img ! (o0 + 2 * w + 2 * j)
                     - (if j = 0 then 0 else img ! (o0 + 2 * w + 2 * j - 2))"
    using enc by (simp add: xggy_pair_def)
  from unxggy_odd_loop[OF o e2 f1] obtain out2 q0 q1 where
    r2: "for_upto w (\<lambda>x. unxggy_odd inb) (b, g + w, o0 + 2 * w, 0, 0, out1)
           = Some (b + w, g + w + w, o0 + 2 * w + 2 * w, q0, q1, out2)"
    and l2: "length out2 = length out1"
    and f2: "\<forall>i<o0 + 2 * w + 2 * w. out2 ! i = img ! i"
    by blast
  have r: "unxggy_rows W inb (a, b, g, o0, out) = Some (a + w, b + w, g + 2 * w, o0 + 4 * w, out2)"
    using r1 r2 by (simp add: unxggy_rows_def w)
  then show ?thesis using f2 l1 l2 by simp
qed

lemma UnpackAndUnfilterXGGY_ok:
  assumes d: "HeightPixels d = 2 * h" "WidthPixels d = 2 * w"
    and len: "4 * (h * w) \<le> length inb" "4 * (h * w) \<le> length (pixels d)" "4 * (h * w) < 2 ^ 32"
    and enc: "bayer w (h * w) img inb h"
  shows "\<exists>out'. UnpackAndUnfilterXGGY inb d = Some out' \<and> length out' = length (pixels d)
           \<and> (\<forall>i<4 * (h * w). out' ! i = img ! i)"
proof -
  define pb where "pb = h * w"
  define K where "K = (\<lambda>rr (t :: nat \<times> nat \<times> nat \<times> nat \<times> byte list). case t of (ir, ib, ig, op, ob) \<Rightarrow>
      op = rr * w * 4 \<and> ir = rr * w \<and> ib = pb + rr * w \<and> ig = pb * 2 + rr * w * 2
    \<and> length ob = length (pixels d) \<and> (\<forall>i<rr * w * 4. ob ! i = img ! i))"
  have hs: "half_steps (2 * w) = w" "half_steps (2 * h) = h" by (simp_all add: half_steps_def)
  have "\<exists>s'. for_upto h (\<lambda>y. unxggy_rows (2 * w) inb) (0, pb, pb * 2, 0, pixels d) = Some s' \<and> K h s'"
  proof (rule for_upto_rule)
    show "K 0 (0, pb, pb * 2, 0, pixels d)" by (simp add: K_def)
  next
    fix rr t assume rr: "rr < h" and t: "K rr t"
    obtain ir ib ig op ob where [simp]: "t = (ir, ib, ig, op, ob)" by (cases t)
    define A where "A = rr * w"
    from t have ip: "op = A * 4" "ir = A" "ib = pb + A" "ig = pb * 2 + A * 2"
      and lo: "length ob = length (pixels d)" and fo: "\<forall>i<A * 4. ob ! i = img ! i"
      by (auto simp: K_def A_def)
    have "Suc rr * w \<le> h * w" using rr by (intro mult_le_mono1) simp
    then have A: "A + w \<le> pb" by (simp add: A_def pb_def)
    have b: "A + w \<le> length inb" "pb + A + w \<le> length inb" "pb * 2 + A * 2 + 2 * w \<le> length inb"
         "A * 4 + 4 * w \<le> length ob"
      using A len lo unfolding pb_def[symmetric] by simp_all
    have p: "xggy_pair w img inb (A * 4) A (pb + A) (pb * 2 + A * 2)"
      using enc rr by (simp add: bayer_def A_def pb_def)
    from unxggy_rows_ok[OF hs(1) b p fo] obtain ob' where
      r: "unxggy_rows (2 * w) inb (A, pb + A, pb * 2 + A * 2, A * 4, ob)
          = Some (A + w, pb + A + w, pb * 2 + A * 2 + 2 * w, A * 4 + 4 * w, ob')"
      and l: "length ob' = length ob"
      and f: "\<forall>i<A * 4 + 4 * w. ob' ! i = img ! i"
      by blast
    have "K (Suc rr) (A + w, pb + A + w, pb * 2 + A * 2 + 2 * w, A * 4 + 4 * w, ob')"
      using l lo f by (simp add: K_def A_def algebra_simps)
    then show "\<exists>t'. unxggy_rows (2 * w) inb t = Some t' \<and> K (Suc rr) t'"
      using r ip by simp
  qed
  moreover have "u32 (2 * w * (2 * h)) div 4 = pb" "u32 (pb * 2) = pb * 2"
    using len(3) by (simp_all add: pb_def u32_id mult.commute)
  ultimately show ?thesis by (auto simp: UnpackAndUnfilterXGGY_def K_def d Let_def pb_def hs)
qed

lemma valid_byteCount:
  assumes "valid_intra d"
  shows "byteCount_of d = pixelBytes_of d * (WidthPixels d * HeightPixels d)"
    and "pixelCount_of d = WidthPixels d * HeightPixels d"
    and "byteCount_of d + 1000 < 2 ^ 32"
proof -
  have a: "pixelBytes_of d * (WidthPixels d * HeightPixels d) + 1000 < 2 ^ 32" "1 \<le> pixelBytes_of d"
    using assms by (simp_all add: valid_intra_def)
  have "WidthPixels d * HeightPixels d \<le> pixelBytes_of d * (WidthPixels d * HeightPixels d)"
    using a(2) by simp
  then have "WidthPixels d * HeightPixels d < 2 ^ 32" using a(1) by linarith
  then show pc: "pixelCount_of d = WidthPixels d * HeightPixels d"
    by (simp add: pixelCount_of_def u32_id)
  have "pixelBytes_of d * (WidthPixels d * HeightPixels d) < 2 ^ 32" using a(1) by linarith
  then show bc: "byteCount_of d = pixelBytes_of d * (WidthPixels d * HeightPixels d)"
    by (simp add: byteCount_of_def pc u32_id)
  show "byteCount_of d + 1000 < 2 ^ 32" using a(1) bc by simp
qed

lemma pack_pass_intra_ok:
  assumes v: "valid_intra d" and len: "byteCount_of d \<le> length out"
  shows "\<exists>out'. pack_pass None d out = Some (out', 0) \<and> length out' = length out
           \<and> intra_packed d (pixels d) out'"
proof -
  define W H k where "W = WidthPixels d" and "H = HeightPixels d" and "k = pixelBytes_of d"
  have bc: "byteCount_of d = k * (W * H)" and small: "k * (W * H) + 1000 < 2 ^ 32"
    and lp: "length (pixels d) = k * (W * H)" and k: "1 \<le> k" "k \<le> 8"
    using v valid_byteCount[OF v] by (simp_all add: W_def H_def k_def valid_intra_def)
  have l1: "H * W * k \<le> length (pixels d)" "H * W * k \<le> length out" "H * W * k < 2 ^ 32"
    using lp len bc small by (simp_all add: mult.commute mult.left_commute)
  show ?thesis
  proof (cases "BytesPerChannel d > 8")
    case True
    then obtain w h where wh: "W = 2 * w" "H = 2 * h" and k1: "k = 1"
      using v by (auto simp: valid_intra_def W_def H_def k_def pixelBytes_of_def elim!: evenE)
    have l2: "4 * (h * w) \<le> length (pixels d)" "4 * (h * w) \<le> length out" "4 * (h * w) < 2 ^ 32"
      using l1 by (simp_all add: wh k1)
    from PackAndFilterXGGY_ok[OF wh(2)[unfolded H_def] wh(1)[unfolded W_def] l2]
    obtain out' where "PackAndFilterXGGY d out = Some out'" "length out' = length out"
        "bayer w (h * w) (pixels d) out' h" by blast
    then show ?thesis using True wh
      by (simp add: pack_pass_def intra_packed_def Let_def W_def[symmetric] H_def[symmetric])
  next
    case False
    consider "k = 3" | "k = 4" | "k \<in> {1, 2, 5, 6, 7, 8}" using k by force
    then show ?thesis
    proof cases
      case 1
      from PackAndFilter3_ok[OF l1[unfolded 1] H_def[symmetric] W_def[symmetric]]
      obtain out' where "PackAndFilter3 d out = Some out'" "length out' = length out"
        "planar3 W (H * W) (pixels d) out' (H * W)" by blast
      then show ?thesis using False 1
        by (simp add: pack_pass_def intra_packed_def Let_def W_def[symmetric] H_def[symmetric] k_def[symmetric])
    next
      case 2
      from PackAndFilter4_ok[OF l1[unfolded 2] H_def[symmetric] W_def[symmetric]]
      obtain out' where "PackAndFilter4 d out = Some out'" "length out' = length out"
        "planar4 W (H * W) (pixels d) out' (H * W)" by blast
      then show ?thesis using False 2
        by (simp add: pack_pass_def intra_packed_def Let_def W_def[symmetric] H_def[symmetric] k_def[symmetric])
    next
      case 3
      from PackAndFilter_ok[OF l1(1,2) H_def[symmetric] W_def[symmetric]]
      obtain out' where "PackAndFilter k d out = Some out'" "length out' = length out"
        "filtered k W (pixels d) out' (H * W)" by blast
      moreover have "k \<noteq> 3" "k \<noteq> 4" using 3 by auto
      ultimately show ?thesis using False 3
        by (simp add: pack_pass_def intra_packed_def Let_def W_def[symmetric] H_def[symmetric] k_def[symmetric])
    qed
  qed
qed

lemma filtered_agree:
  assumes "filtered k W img out n" "\<forall>i<n * k. out' ! i = out ! i"
  shows "filtered k W img out' n"
  unfolding filtered_def
proof (intro allI impI)
  fix m c assume "m < n" "c < k"
  then have "m * k + c < n * k" by (rule idx_lt)
  then show "out' ! (m * k + c) = img ! (m * k + c) - (if m mod W = 0 then 0 else img ! ((m - 1) * k + c))"
    using assms \<open>m < n\<close> \<open>c < k\<close> by (simp add: filtered_def)
qed

lemma planar3_agree:
  assumes "planar3 W pb img out n" "\<forall>i<pb * 3. out' ! i = out ! i" "n \<le> pb"
  shows "planar3 W pb img out' n"
  using assms unfolding planar3_def Let_def by simp

lemma planar4_agree:
  assumes "planar4 W pb img out n" "\<forall>i<pb * 4. out' ! i = out ! i" "n \<le> pb"
  shows "planar4 W pb img out' n"
  using assms unfolding planar4_def Let_def by simp

lemma bayer_agree:
  assumes "bayer w (h * w) img out h" "\<forall>i<4 * (h * w). out' ! i = out ! i"
  shows "bayer w (h * w) img out' h"
  unfolding bayer_def
proof (intro allI impI)
  fix rr assume rr: "rr < h"
  then have "Suc rr * w \<le> h * w" by (intro mult_le_mono1) simp
  then have A: "rr * w + w \<le> h * w" by simp
  have old: "xggy_pair w img out (rr * w * 4) (rr * w) (h * w + rr * w) (h * w * 2 + rr * w * 2)"
    using assms(1) rr by (simp add: bayer_def)
  show "xggy_pair w img out' (rr * w * 4) (rr * w) (h * w + rr * w) (h * w * 2 + rr * w * 2)"
  proof (rule xggy_pair_frame[OF old], intro allI impI)
    fix i assume "rr * w \<le> i \<and> i < rr * w + w \<or> h * w + rr * w \<le> i \<and> i < h * w + rr * w + w
       \<or> h * w * 2 + rr * w * 2 \<le> i \<and> i < h * w * 2 + rr * w * 2 + 2 * w"
    then have "i < 4 * (h * w)" using A by auto
    then show "out' ! i = out ! i" using assms(2) by simp
  qed
qed

lemma intra_packed_agree:
  assumes v: "valid_intra d" and p: "intra_packed d img out"
    and a: "\<forall>i<byteCount_of d. out' ! i = out ! i"
  shows "intra_packed d img out'"
proof -
  define W H k where "W = WidthPixels d" and "H = HeightPixels d" and "k = pixelBytes_of d"
  have bc: "byteCount_of d = k * (W * H)" and k: "1 \<le> k" "k \<le> 8"
    using v valid_byteCount[OF v] by (simp_all add: W_def H_def k_def valid_intra_def)
  show ?thesis
  proof (cases "BytesPerChannel d > 8")
    case True
    then obtain w h where wh: "W = 2 * w" "H = 2 * h" and k1: "k = 1"
      using v by (auto simp: valid_intra_def W_def H_def k_def pixelBytes_of_def elim!: evenE)
    have "\<forall>i<4 * (h * w). out' ! i = out ! i" using a by (simp add: bc wh k1 mult.commute)
    moreover have "bayer w (h * w) img out h"
      using p True wh by (simp add: intra_packed_def Let_def W_def[symmetric] H_def[symmetric])
    ultimately have "bayer w (h * w) img out' h" by (rule bayer_agree[rotated])
    then show ?thesis using True wh
      by (simp add: intra_packed_def Let_def W_def[symmetric] H_def[symmetric])
  next
    case False
    have a': "\<forall>i<H * W * k. out' ! i = out ! i"
      using a by (simp add: bc mult.commute mult.left_commute)
    show ?thesis
    proof (cases "k = 3 \<or> k = 4")
      case True
      then show ?thesis using p False a' planar3_agree[of W "H * W" img out "H * W" out']
          planar4_agree[of W "H * W" img out "H * W" out']
        by (auto simp: intra_packed_def Let_def W_def[symmetric] H_def[symmetric] k_def[symmetric])
    next
      case F2: False
      then show ?thesis using p False a' filtered_agree[of k W img out "H * W" out']
        by (auto simp: intra_packed_def Let_def W_def[symmetric] H_def[symmetric] k_def[symmetric])
    qed
  qed
qed

lemma intra_packed_cong:
  assumes "WidthPixels d' = WidthPixels d" "HeightPixels d' = HeightPixels d"
    "Channels d' = Channels d" "BytesPerChannel d' = BytesPerChannel d"
  shows "intra_packed d' img out = intra_packed d img out"
  using assms by (simp add: intra_packed_def pixelBytes_of_def)

lemma prefix_eq:
  assumes "\<forall>i<n. xs ! i = ys ! i" "length xs = n" "length ys = n"
  shows "xs = (ys :: 'a list)"
  using assms by (intro nth_equalityI) simp_all

lemma unpack_pass_intra_ok:
  assumes v: "valid_intra d"
    and same: "WidthPixels d' = WidthPixels d" "HeightPixels d' = HeightPixels d"
        "Channels d' = Channels d" "BytesPerChannel d' = BytesPerChannel d"
    and out: "length (pixels d') = byteCount_of d"
    and img: "length img = byteCount_of d"
    and p: "intra_packed d img inb" and len: "byteCount_of d \<le> length inb"
    and intra: "IsIFrame d' \<noteq> 0 \<or> refData = None"
  shows "unpack_pass refData inb d' = Some img"
proof -
  define W H k where "W = WidthPixels d" and "H = HeightPixels d" and "k = pixelBytes_of d"
  have bc: "byteCount_of d = k * (W * H)" and small: "k * (W * H) + 1000 < 2 ^ 32"
    and k: "1 \<le> k" "k \<le> 8"
    using v valid_byteCount[OF v] by (simp_all add: W_def H_def k_def valid_intra_def)
  have k': "pixelBytes_of d' = k" using same by (simp add: pixelBytes_of_def k_def)
  have l1: "H * W * k \<le> length inb" "H * W * k \<le> length (pixels d')" "H * W * k < 2 ^ 32"
    using out len bc small by (simp_all add: mult.commute mult.left_commute)
  have sel: "(if IsIFrame d' = 0 then refData else None) = None" using intra by auto
  show ?thesis
  proof (cases "BytesPerChannel d > 8")
    case True
    then obtain w h where wh: "W = 2 * w" "H = 2 * h" and k1: "k = 1"
      using v by (auto simp: valid_intra_def W_def H_def k_def pixelBytes_of_def elim!: evenE)
    have l2: "4 * (h * w) \<le> length inb" "4 * (h * w) \<le> length (pixels d')" "4 * (h * w) < 2 ^ 32"
      using l1 by (simp_all add: wh k1)
    have b: "bayer w (h * w) img inb h"
      using p True wh by (simp add: intra_packed_def Let_def W_def[symmetric] H_def[symmetric])
    have d': "HeightPixels d' = 2 * h" "WidthPixels d' = 2 * w"
      using same wh by (simp_all add: W_def H_def)
    from UnpackAndUnfilterXGGY_ok[OF d' l2 b]
    obtain out' where r: "UnpackAndUnfilterXGGY inb d' = Some out'" "length out' = length (pixels d')"
        "\<forall>i<4 * (h * w). out' ! i = img ! i" by blast
    have "out' = img"
      using r out img bc by (intro prefix_eq[of "4 * (h * w)"]) (simp_all add: wh k1)
    then show ?thesis using True r same sel
      by (simp add: unpack_pass_def Let_def)
  next
    case False
    have nb: "\<not> BytesPerChannel d' > 8" using False same by simp
    have d': "HeightPixels d' = H" "WidthPixels d' = W" using same by (simp_all add: W_def H_def)
    have fin: "out' = img" if "restored k img out' (H * W)" "length out' = length (pixels d')" for out'
      using that out img bc by (intro restored_eq[of k img out' "H * W"]) (simp_all add: mult.commute)
    consider "k = 3" | "k = 4" | "k \<in> {1, 2, 5, 6, 7, 8}" using k by force
    then show ?thesis
    proof cases
      case 1
      have "planar3 W (H * W) img inb (H * W)"
        using p False 1 by (simp add: intra_packed_def Let_def W_def[symmetric] H_def[symmetric] k_def[symmetric])
      from UnpackAndUnfilter3_ok[OF l1[unfolded 1] d' this]
      obtain out' where "UnpackAndUnfilter3 inb d' = Some out'" "length out' = length (pixels d')"
        "restored 3 img out' (H * W)" by blast
      then show ?thesis using nb 1 k' sel fin[of out']
        by (simp add: unpack_pass_def Let_def)
    next
      case 2
      have "planar4 W (H * W) img inb (H * W)"
        using p False 2 by (simp add: intra_packed_def Let_def W_def[symmetric] H_def[symmetric] k_def[symmetric])
      from UnpackAndUnfilter4_ok[OF l1[unfolded 2] d' this]
      obtain out' where "UnpackAndUnfilter4 inb d' = Some out'" "length out' = length (pixels d')"
        "restored 4 img out' (H * W)" by blast
      then show ?thesis using nb 2 k' sel fin[of out']
        by (simp add: unpack_pass_def Let_def)
    next
      case 3
      then have ne: "k \<noteq> 3" "k \<noteq> 4" by auto
      have "filtered k W img inb (H * W)"
        using p False ne by (simp add: intra_packed_def Let_def W_def[symmetric] H_def[symmetric] k_def[symmetric])
      from UnpackAndUnfilter_ok[OF l1(1,2) d' this]
      obtain out' where "UnpackAndUnfilter k inb d' = Some out'" "length out' = length (pixels d')"
        "restored k img out' (H * W)" by blast
      then show ?thesis using nb 3 ne k' sel fin[of out']
        by (simp add: unpack_pass_def Let_def)
    qed
  qed
qed

lemma store16_length [simp]: "length (store16 e v) = 2"
  by (cases e) (simp_all add: store16_def)

lemma ZPNG_Header_length [simp]: "length (ZPNG_Header e m d) = 8"
  by (simp add: ZPNG_Header_def)

lemma load16_store16:
  assumes "v < 2 ^ 16"
  shows "load16 e (store16 e v ! 0) (store16 e v ! Suc 0) = v"
proof -
  have "v mod 256 + 256 * (v div 256 mod 256) = v" using assms by simp
  then show ?thesis
    by (cases e) (simp_all add: store16_def load16_def unat_of_nat add.commute)
qed

lemma header_fields:
  fixes hd :: "byte list"
  assumes "hd = ZPNG_Header e m d"
  shows "(hd @ rest) ! 0 = store16 e m ! 0" "(hd @ rest) ! Suc 0 = store16 e m ! Suc 0"
    "(hd @ rest) ! 2 = store16 e (WidthPixels d) ! 0" "(hd @ rest) ! 3 = store16 e (WidthPixels d) ! Suc 0"
    "(hd @ rest) ! 4 = store16 e (HeightPixels d) ! 0" "(hd @ rest) ! 5 = store16 e (HeightPixels d) ! Suc 0"
    "(hd @ rest) ! 6 = of_nat (Channels d)" "(hd @ rest) ! 7 = of_nat (BytesPerChannel d)"
  unfolding assms by (cases e; simp add: ZPNG_Header_def store16_def)+

lemma byteCount_cong:
  assumes "WidthPixels d' = WidthPixels d" "HeightPixels d' = HeightPixels d"
    "Channels d' = Channels d" "BytesPerChannel d' = BytesPerChannel d"
  shows "byteCount_of d' = byteCount_of d" "pixelBytes_of d' = pixelBytes_of d"
  using assms by (simp_all add: byteCount_of_def pixelBytes_of_def pixelCount_of_def)

lemma decompress_framed:
  assumes dims: "WidthPixels d < 2 ^ 16" "HeightPixels d < 2 ^ 16" "Channels d < 2 ^ 8"
      "BytesPerChannel d < 2 ^ 8"
    and magic: "magic = ZPNG_HEADER_MAGIC \<and> iframe = 1
                \<or> magic = ZPNG_VIDEO_HEADER_MAGIC \<and> iframe = 0 \<and> refData \<noteq> None"
    and dec: "ZSTD_decompress z (u32 (byteCount_of d + 1000)) payload = Some src"
    and fit: "length src \<le> u32 (byteCount_of d + 1000)"
    and unp: "unpack_pass refData (src @ replicate (u32 (byteCount_of d + 1000) - length src) 0)
                (decoded_image d iframe (replicate (byteCount_of d) 0)) = Some img"
  shows "ZPNG_DecompressVideo z refData
           \<lparr>Data = Some (ZPNG_Header (byte_order z) magic d @ payload @ rest),
            Bytes = 8 + length payload\<rparr>
         = Some (decoded_image d iframe img)"
proof -
  define mem where "mem = ZPNG_Header (byte_order z) magic d @ payload @ rest"
  have m16: "magic < 2 ^ 16"
    using magic by (auto simp: ZPNG_HEADER_MAGIC_def ZPNG_VIDEO_HEADER_MAGIC_def)
  have f: "load16 (byte_order z) (mem ! 0) (mem ! Suc 0) = magic"
    "load16 (byte_order z) (mem ! 2) (mem ! 3) = WidthPixels d"
    "load16 (byte_order z) (mem ! 4) (mem ! 5) = HeightPixels d"
    "unat (mem ! 6) = Channels d" "unat (mem ! 7) = BytesPerChannel d"
    using dims m16 unfolding mem_def
    by (simp_all add: header_fields[OF refl] load16_store16 unat_of_nat)
  have pl: "take (length payload) (drop 8 mem) = payload" by (simp add: mem_def)
  have lm: "8 + length payload \<le> length mem" by (simp add: mem_def)
  have bc2: "byteCount_of \<lparr>Buffer = b, BytesPerChannel = BytesPerChannel d,
      Channels = Channels d, WidthPixels = WidthPixels d, HeightPixels = HeightPixels d,
      StrideBytes = s, IsIFrame = i\<rparr> = byteCount_of d" for b s i
    by (rule byteCount_cong) simp_all
  have bl: "blit (replicate (u32 (byteCount_of d + 1000)) 0) 0 src
              = Some (src @ replicate (u32 (byteCount_of d + 1000) - length src) 0)"
    using fit by (simp add: blit_def)
  have ne: "ZPNG_HEADER_MAGIC \<noteq> ZPNG_VIDEO_HEADER_MAGIC"
    by (simp add: ZPNG_HEADER_MAGIC_def ZPNG_VIDEO_HEADER_MAGIC_def)
  note unp' = unp[unfolded decoded_image_def]
  from magic have "ZPNG_DecompressVideo z refData \<lparr>Data = Some mem, Bytes = 8 + length payload\<rparr>
         = Some (decoded_image d iframe img)"
  proof (elim disjE conjE)
    assume "magic = ZPNG_HEADER_MAGIC" "iframe = 1"
    then show ?thesis
      using lm unp'
      by (simp add: ZPNG_DecompressVideo_def Let_def f pl ZPNG_HEADER_OVERHEAD_BYTES_def
          bc2 dec bl decoded_image_def)
  next
    assume "magic = ZPNG_VIDEO_HEADER_MAGIC" "iframe = 0" "refData \<noteq> None"
    then show ?thesis
      using lm unp' ne
      by (simp add: ZPNG_DecompressVideo_def Let_def f pl ZPNG_HEADER_OVERHEAD_BYTES_def
          bc2 dec bl decoded_image_def)
  qed
  then show ?thesis by (simp add: mem_def)
qed

lemma compress_with:
  assumes pb: "pixelBytes_of d \<le> 8"
    and sz: "Bytes bo = 0 \<or> u32 (8 + u32 (ZSTD_compressBound z (byteCount_of d))) \<le> Bytes bo"
    and out: "(if Bytes bo = 0
               then Some (replicate (u32 (8 + u32 (ZSTD_compressBound z (byteCount_of d)))) 0)
               else Data bo) = Some output"
    and pk: "pack_pass refData d (replicate (u32 (byteCount_of d + 1000)) 0) = Some (packing, oc)"
    and n: "n = u32 (byteCount_of d + (if oc \<ge> 0 then nat oc else 0))" "n \<le> length packing"
    and zc: "ZSTD_compress z (u32 (ZSTD_compressBound z (byteCount_of d))) (take n packing) = Some payload"
    and fit: "8 + length payload \<le> length output"
  shows "ZPNG_CompressVideoToBuffer z refData d bo
         = Some (0, \<lparr>Data = Some (ZPNG_Header (byte_order z)
                         (if refData \<noteq> None \<and> oc \<ge> 0 then ZPNG_VIDEO_HEADER_MAGIC else ZPNG_HEADER_MAGIC) d
                       @ payload @ drop (8 + length payload) output),
                     Bytes = u32 (8 + u32 (length payload))\<rparr>)"
proof -
  have b1: "blit output 8 payload = Some (take 8 output @ payload @ drop (8 + length payload) output)"
    using fit by (simp add: blit_def)
  have b2: "blit (take 8 output @ payload @ drop (8 + length payload) output) 0 (ZPNG_Header e m d)
          = Some (ZPNG_Header e m d @ payload @ drop (8 + length payload) output)" for e m
    using fit by (simp add: blit_def)
  have nsz: "\<not> (Bytes bo \<noteq> 0 \<and> Bytes bo < u32 (8 + u32 (ZSTD_compressBound z (byteCount_of d))))"
    using sz by auto
  show ?thesis
    unfolding ZPNG_CompressVideoToBuffer_def Let_def ZPNG_HEADER_OVERHEAD_BYTES_def
    using pb nsz n(2)
    by (auto simp add: out pk n(1)[symmetric] zc b1 b2)
qed

lemma store_coder_contract: "zstd_contract store_coder"
  by (simp add: zstd_contract_def store_coder_def)

lemma intra_compress_ok:
  assumes c: "zstd_contract z" and v: "valid_intra d"
    and cb: "ZSTD_compressBound z (byteCount_of d) < 2 ^ 32 - 8"
    and bo: "Bytes bo = 0 \<and> output = replicate (8 + ZSTD_compressBound z (byteCount_of d)) 0
             \<or> 8 + ZSTD_compressBound z (byteCount_of d) \<le> Bytes bo \<and> Data bo = Some output
                \<and> Bytes bo \<le> length output"
  shows "\<exists>packing payload.
           pack_pass None d (replicate (byteCount_of d + 1000) 0) = Some (packing, 0)
         \<and> length packing = byteCount_of d + 1000
         \<and> intra_packed d (pixels d) packing
         \<and> ZSTD_compress z (ZSTD_compressBound z (byteCount_of d)) (take (byteCount_of d) packing)
              = Some payload
         \<and> length payload \<le> ZSTD_compressBound z (byteCount_of d)
         \<and> ZSTD_decompress z (byteCount_of d + 1000) payload = Some (take (byteCount_of d) packing)
         \<and> ZPNG_CompressVideoToBuffer z None d bo
              = Some (0, \<lparr>Data = Some (ZPNG_Header (byte_order z) ZPNG_HEADER_MAGIC d @ payload
                                       @ drop (8 + length payload) output),
                          Bytes = 8 + length payload\<rparr>)"
proof -
  let ?bc = "byteCount_of d"
  let ?cap = "ZSTD_compressBound z ?bc"
  have small: "?bc + 1000 < 2 ^ 32" and lp: "length (pixels d) = ?bc"
    using valid_byteCount[OF v] v by (simp_all add: valid_intra_def)
  have u: "u32 (?bc + 1000) = ?bc + 1000" "u32 ?cap = ?cap" "u32 (8 + ?cap) = 8 + ?cap" "u32 ?bc = ?bc"
    using small cb by (simp_all add: u32_id)
  from pack_pass_intra_ok[OF v, of "replicate (?bc + 1000) 0"]
  obtain packing where pk: "pack_pass None d (replicate (?bc + 1000) 0) = Some (packing, 0)"
    and lpk: "length packing = ?bc + 1000" and ip: "intra_packed d (pixels d) packing"
    by auto
  let ?src = "take ?bc packing"
  have ls: "length ?src = ?bc" using lpk by simp
  have "ZSTD_compressBound z (length ?src) \<le> ?cap" by (simp only: ls)
  with c have "ZSTD_compress z ?cap ?src \<noteq> None"
    unfolding zstd_contract_def by blast
  then obtain payload where zc: "ZSTD_compress z ?cap ?src = Some payload" by blast
  from c zc have cz: "length payload \<le> ?cap
      \<and> (\<forall>cap'. length ?src \<le> cap' \<longrightarrow> ZSTD_decompress z cap' payload = Some ?src)"
    unfolding zstd_contract_def by blast
  then have lpay: "length payload \<le> ?cap" by blast
  have "length ?src \<le> ?bc + 1000" using lpk by simp
  with cz have zd: "ZSTD_decompress z (?bc + 1000) payload = Some ?src" by blast
  have up: "u32 (8 + u32 (length payload)) = 8 + length payload"
    using lpay cb by (simp add: u32_id)
  have pb: "pixelBytes_of d \<le> 8" using v by (simp add: valid_intra_def)
  have enc0: "ZPNG_CompressVideoToBuffer z None d bo
       = Some (0, \<lparr>Data = Some (ZPNG_Header (byte_order z)
                         (if (None :: ZPNG_ImageData option) \<noteq> None \<and> (0 :: int) \<ge> 0
                          then ZPNG_VIDEO_HEADER_MAGIC else ZPNG_HEADER_MAGIC) d
                      @ payload @ drop (8 + length payload) output),
                   Bytes = u32 (8 + u32 (length payload))\<rparr>)"
  proof (rule compress_with[where n = "?bc" and packing = packing])
    show "pixelBytes_of d \<le> 8" by (rule pb)
    show "Bytes bo = 0 \<or> u32 (8 + u32 ?cap) \<le> Bytes bo" using bo by (auto simp: u)
    show "(if Bytes bo = 0 then Some (replicate (u32 (8 + u32 ?cap)) 0) else Data bo) = Some output"
      using bo by (auto simp: u)
    show "pack_pass None d (replicate (u32 (?bc + 1000)) 0) = Some (packing, 0)"
      using pk by (simp only: u)
    show "?bc = u32 (?bc + (if (0 :: int) \<ge> 0 then nat 0 else 0))" by (simp add: u)
    show "?bc \<le> length packing" using lpk by simp
    show "ZSTD_compress z (u32 ?cap) ?src = Some payload" using zc by (simp only: u)
    show "8 + length payload \<le> length output" using lpay bo by auto
  qed
  then have enc: "ZPNG_CompressVideoToBuffer z None d bo
       = Some (0, \<lparr>Data = Some (ZPNG_Header (byte_order z) ZPNG_HEADER_MAGIC d
                      @ payload @ drop (8 + length payload) output),
                   Bytes = 8 + length payload\<rparr>)"
    unfolding up by simp
  show ?thesis using pk lpk ip zc lpay zd enc by blast
qed

lemma intra_decompress_ok:
  assumes v: "valid_intra d"
    and ip: "intra_packed d (pixels d) packing" and lpk: "byteCount_of d \<le> length packing"
    and zd: "ZSTD_decompress z (byteCount_of d + 1000) payload = Some (take (byteCount_of d) packing)"
  shows "ZPNG_DecompressVideo z refData
           \<lparr>Data = Some (ZPNG_Header (byte_order z) ZPNG_HEADER_MAGIC d @ payload @ rest),
            Bytes = 8 + length payload\<rparr>
         = Some (decoded_image d 1 (pixels d))"
proof -
  let ?bc = "byteCount_of d"
  have small: "?bc + 1000 < 2 ^ 32" and lp: "length (pixels d) = ?bc"
    using valid_byteCount[OF v] v by (simp_all add: valid_intra_def)
  have u: "u32 (?bc + 1000) = ?bc + 1000"
    using small by (simp_all add: u32_id)
  let ?src = "take ?bc packing"
  let ?inb = "?src @ replicate (u32 (?bc + 1000) - length ?src) 0"
  have "\<forall>i<?bc. ?inb ! i = packing ! i"
    using lpk by (simp add: nth_append)
  then have ip': "intra_packed d (pixels d) ?inb"
    by (rule intra_packed_agree[OF v ip])
  have unp: "unpack_pass refData ?inb (decoded_image d 1 (replicate ?bc 0)) = Some (pixels d)"
  proof (rule unpack_pass_intra_ok[where d = d])
    show "valid_intra d" by (rule v)
    show "intra_packed d (pixels d) ?inb" by (rule ip')
    show "?bc \<le> length ?inb" using lpk by simp
    show "length (pixels d) = ?bc" by (rule lp)
  qed (simp_all add: decoded_image_def pixels_def)
  have dims: "WidthPixels d < 2 ^ 16" "HeightPixels d < 2 ^ 16" "Channels d < 2 ^ 8"
      "BytesPerChannel d < 2 ^ 8"
    using v by (simp_all add: valid_intra_def)
  show ?thesis
  proof (rule decompress_framed[OF dims, where src = "?src"])
    show "ZPNG_HEADER_MAGIC = ZPNG_HEADER_MAGIC \<and> (1 :: nat) = 1
           \<or> ZPNG_HEADER_MAGIC = ZPNG_VIDEO_HEADER_MAGIC \<and> (1 :: nat) = 0 \<and> refData \<noteq> None"
      by simp
    show "ZSTD_decompress z (u32 (?bc + 1000)) payload = Some ?src" using zd by (simp only: u)
    show "length ?src \<le> u32 (?bc + 1000)" using lpk by (simp add: u)
    show "unpack_pass refData ?inb (decoded_image d 1 (replicate ?bc 0)) = Some (pixels d)" by (rule unp)
  qed
qed

text \<open>
  C1, amended. For a descriptor with positive 16-bit dimensions, 8-bit channel count and
  depth, between 1 and 8 bytes per pixel, a buffer of exactly that many bytes per pixel
  whose size plus 1000 fits 32 bits, and, in Bayer mode, one channel and even dimensions:
  decompressing the compressed descriptor gives back the dimensions, the channel count,
  the depth and the pixel buffer. The entropy coder is an exact inverse pair that succeeds
  whenever the destination holds its compress bound, and its compress bound for the byte
  count is below \<open>2 ^ 32 - 8\<close>, so that the 32-bit capacity of the output, the 8 header bytes
  plus the bound, does not wrap.
\<close>

theorem C1_intra_round_trip:
  assumes c: "zstd_contract z" and v: "valid_intra d"
    and cb: "ZSTD_compressBound z (byteCount_of d) < 2 ^ 32 - 8"
  shows "\<exists>buffer r. ZPNG_Compress z d = Some buffer \<and> ZPNG_Decompress z buffer = Some r
           \<and> WidthPixels r = WidthPixels d \<and> HeightPixels r = HeightPixels d
           \<and> Channels r = Channels d \<and> BytesPerChannel r = BytesPerChannel d
           \<and> Data (Buffer r) = Data (Buffer d) \<and> Bytes (Buffer r) = length (pixels d)"
proof -
  let ?bc = "byteCount_of d"
  let ?out = "replicate (8 + ZSTD_compressBound z ?bc) (0 :: byte)"
  from intra_compress_ok[OF c v cb, of "\<lparr>Data = None, Bytes = 0\<rparr>" ?out]
  obtain packing payload where lpk: "length packing = ?bc + 1000"
    and ip: "intra_packed d (pixels d) packing"
    and zd: "ZSTD_decompress z (?bc + 1000) payload = Some (take ?bc packing)"
    and enc: "ZPNG_CompressVideoToBuffer z None d \<lparr>Data = None, Bytes = 0\<rparr>
              = Some (0, \<lparr>Data = Some (ZPNG_Header (byte_order z) ZPNG_HEADER_MAGIC d @ payload
                                       @ drop (8 + length payload) ?out),
                          Bytes = 8 + length payload\<rparr>)"
    by auto
  have lpk': "?bc \<le> length packing" using lpk by simp
  note dec = intra_decompress_ok[OF v ip lpk' zd, of None "drop (8 + length payload) ?out"]
  have lp: "length (pixels d) = ?bc"
    using valid_byteCount[OF v] v by (simp_all add: valid_intra_def)
  have "Data (Buffer d) = Some (pixels d)"
    using v by (auto simp: valid_intra_def pixels_def)
  then have fields: "WidthPixels (decoded_image d 1 (pixels d)) = WidthPixels d
      \<and> HeightPixels (decoded_image d 1 (pixels d)) = HeightPixels d
      \<and> Channels (decoded_image d 1 (pixels d)) = Channels d
      \<and> BytesPerChannel (decoded_image d 1 (pixels d)) = BytesPerChannel d
      \<and> Data (Buffer (decoded_image d 1 (pixels d))) = Data (Buffer d)
      \<and> Bytes (Buffer (decoded_image d 1 (pixels d))) = length (pixels d)"
    using lp by (simp add: decoded_image_def)
  let ?buf = "\<lparr>Data = Some (ZPNG_Header (byte_order z) ZPNG_HEADER_MAGIC d @ payload
                      @ drop (8 + length payload) ?out),
            Bytes = 8 + length payload\<rparr>"
  have "ZPNG_Compress z d = Some ?buf"
    unfolding ZPNG_Compress_def enc by simp
  moreover have "ZPNG_Decompress z ?buf = Some (decoded_image d 1 (pixels d))"
    unfolding ZPNG_Decompress_def by (rule dec)
  ultimately show ?thesis using fields by blast
qed

lemmas codec_defs = ZPNG_Compress_def ZPNG_CompressVideoToBuffer_def ZPNG_CompressToBuffer_def
  ZPNG_Decompress_def ZPNG_DecompressVideo_def pack_pass_def unpack_pass_def
  pixelBytes_of_def pixelCount_of_def byteCount_of_def ZPNG_Header_def store16_def load16_def
  ZPNG_HEADER_MAGIC_def ZPNG_VIDEO_HEADER_MAGIC_def ZPNG_HEADER_OVERHEAD_BYTES_def blit_def u32_def
  pixels_def rd_def wr_def Let_def half_steps_def

lemmas xggy_defs = PackAndFilterXGGY_def xggy_rows_def xggy_even_def xggy_odd_def
  UnpackAndUnfilterXGGY_def unxggy_rows_def unxggy_even_def unxggy_odd_def

text \<open>
  C1, as stated, fails on a Bayer image with two channels: the Bayer filter packs one byte
  per pixel, so the second half of the buffer is lost.
\<close>

theorem C1_bayer_channels_counterexample:
  "pixelBytes_of bayer_two_channels = 2
   \<and> pixels bayer_two_channels = [1, 2, 3, 4, 5, 6, 7, 8]
   \<and> map_option pixels (ZPNG_Compress store_coder bayer_two_channels \<bind> ZPNG_Decompress store_coder)
       = Some [1, 2, 3, 4, 0, 0, 0, 0]"
  by (simp add: codec_defs xggy_defs store_coder_def bayer_two_channels_def eval_simps)

theorem C1_intra_round_trip_witness:
  "zstd_contract store_coder \<and> valid_intra rgb_two_pixels
   \<and> ZSTD_compressBound store_coder (byteCount_of rgb_two_pixels) < 2 ^ 32 - 8
   \<and> (\<exists>buffer r. ZPNG_Compress store_coder rgb_two_pixels = Some buffer
         \<and> ZPNG_Decompress store_coder buffer = Some r
         \<and> WidthPixels r = WidthPixels rgb_two_pixels \<and> HeightPixels r = HeightPixels rgb_two_pixels
         \<and> Channels r = Channels rgb_two_pixels
         \<and> BytesPerChannel r = BytesPerChannel rgb_two_pixels
         \<and> Data (Buffer r) = Data (Buffer rgb_two_pixels)
         \<and> Bytes (Buffer r) = length (pixels rgb_two_pixels))"
proof -
  have v: "valid_intra rgb_two_pixels"
    by (simp add: valid_intra_def rgb_two_pixels_def pixelBytes_of_def pixels_def u32_def)
  have b: "ZSTD_compressBound store_coder (byteCount_of rgb_two_pixels) < 2 ^ 32 - 8"
    by (simp add: store_coder_def rgb_two_pixels_def byteCount_of_def pixelBytes_of_def
        pixelCount_of_def u32_def)
  show ?thesis
    using C1_intra_round_trip[OF store_coder_contract v b] store_coder_contract v b by simp
qed

lemma esc_count_0 [simp]: "esc_count cur rf 0 = 0"
  by (simp add: esc_count_def)

lemma esc_count_Suc:
  "esc_count cur rf (Suc j) = esc_count cur rf j + (if ovf (cur ! j) (rf ! j) then 1 else 0)"
  by (simp add: esc_count_def)

lemma esc_count_mono: "i \<le> j \<Longrightarrow> esc_count cur rf i \<le> esc_count cur rf j"
proof (induction j)
  case 0 then show ?case by simp
next
  case (Suc j)
  then show ?case by (cases "i = Suc j") (auto simp: esc_count_Suc)
qed

lemma esc_count_less:
  assumes "i < j" "ovf (cur ! i) (rf ! i)"
  shows "esc_count cur rf i < esc_count cur rf j"
proof -
  have "esc_count cur rf (Suc i) \<le> esc_count cur rf j" using assms(1) by (intro esc_count_mono) simp
  then show ?thesis using assms(2) by (simp add: esc_count_Suc)
qed

lemma esc_count_le: "esc_count cur rf j \<le> j"
  by (simp add: esc_count_def) (metis diff_zero length_filter_le length_upt)

lemma sint_byte_of_int: "- 128 \<le> x \<Longrightarrow> x < 128 \<Longrightarrow> sint (word_of_int x :: byte) = x"
  by (simp add: sint_sbintrunc' signed_take_bit_int_eq_self)

lemma vbyte_escape: "vbyte a r = 0x80 \<longleftrightarrow> ovf a r"
proof (cases "ovf a r")
  case True then show ?thesis by (simp add: vbyte_def)
next
  case False
  then have r: "- 127 \<le> uint a - uint r" "uint a - uint r \<le> 127" by (auto simp: ovf_def)
  have "sint (word_of_int (uint a - uint r) :: byte) = uint a - uint r"
    using r by (intro sint_byte_of_int) simp_all
  moreover have "sint (0x80 :: byte) = - 128" by simp
  ultimately have "(word_of_int (uint a - uint r) :: byte) \<noteq> 0x80" using r by auto
  then show ?thesis using False by (simp add: vbyte_def)
qed

lemma vbyte_signed:
  assumes "\<not> ovf a r"
  shows "sint (vbyte a r) = uint a - uint r" "- 127 \<le> sint (vbyte a r)" "sint (vbyte a r) \<le> 127"
proof -
  have r: "- 127 \<le> uint a - uint r" "uint a - uint r \<le> 127" using assms by (auto simp: ovf_def)
  show "sint (vbyte a r) = uint a - uint r"
    using r assms sint_byte_of_int[of "uint a - uint r"] unfolding vbyte_def by simp
  then show "- 127 \<le> sint (vbyte a r)" "sint (vbyte a r) \<le> 127" using r by simp_all
qed

lemma vbyte_add: "\<not> ovf a r \<Longrightarrow> r + vbyte a r = a"
  by (simp add: vbyte_def)

lemma for_upto_ret_rule:
  assumes "Q 0 (Next s)"
    and "\<And>i t. i < n \<Longrightarrow> Q i (Next t) \<Longrightarrow> Q (Suc i) (body i t)"
    and "\<And>i r. i < n \<Longrightarrow> Q i r \<Longrightarrow> (\<forall>t. r \<noteq> Next t) \<Longrightarrow> Q (Suc i) r"
  shows "Q n (for_upto_ret n body s)"
  using assms(2,3)
proof (induction n)
  case 0
  then show ?case using assms(1) by simp
next
  case (Suc n)
  have ih: "Q n (for_upto_ret n body s)"
    by (rule Suc.IH) (auto intro: Suc.prems)
  show ?case
  proof (cases "for_upto_ret n body s")
    case Fault
    then show ?thesis using Suc.prems(2)[of n Fault] ih by simp
  next
    case (Return r)
    then show ?thesis using Suc.prems(2)[of n "Return r"] ih by simp
  next
    case (Next t)
    then show ?thesis using Suc.prems(1)[of n t] ih by simp
  qed
qed

lemma for_upto_ret_add:
  "for_upto_ret (m + n) (\<lambda>i. f) s =
     (case for_upto_ret m (\<lambda>i. f) s of Fault \<Rightarrow> Fault | Return r \<Rightarrow> Return r
      | Next t \<Rightarrow> for_upto_ret n (\<lambda>i. f) t)"
proof (induction n)
  case 0
  then show ?case by (simp split: flow.splits)
next
  case (Suc n)
  then show ?case by (simp split: flow.splits)
qed

lemma for_upto_ret_flat:
  "for_upto_ret a (\<lambda>y. for_upto_ret b (\<lambda>x. f)) s = for_upto_ret (a * b) (\<lambda>i. f) s"
proof (induction a)
  case 0
  then show ?case by simp
next
  case (Suc a)
  have "for_upto_ret (Suc a * b) (\<lambda>i. f) s = for_upto_ret (a * b + b) (\<lambda>i. f) s"
    by (simp add: add.commute)
  then show ?case using Suc by (simp add: for_upto_ret_add)
qed

lemma video_progress_Next:
  assumes "video_progress d rf N L j (Next t)"
  shows "esc_count (pixels d) rf j \<le> 1000"
    and "\<exists>ob. t = (N + esc_count (pixels d) rf j, esc_count (pixels d) rf j, ob)
            \<and> length ob = L \<and> inter_packed (pixels d) rf N ob j"
proof -
  show e: "esc_count (pixels d) rf j \<le> 1000"
  proof (rule ccontr)
    assume "\<not> esc_count (pixels d) rf j \<le> 1000"
    then obtain ob where
      "Next t = (case PackAndFilterXGGY d ob of None \<Rightarrow> Fault | Some out \<Rightarrow> Return out)"
      using assms by (auto simp: video_progress_def)
    then show False by (cases "PackAndFilterXGGY d ob") simp_all
  qed
  then show "\<exists>ob. t = (N + esc_count (pixels d) rf j, esc_count (pixels d) rf j, ob)
            \<and> length ob = L \<and> inter_packed (pixels d) rf N ob j"
    using assms by (auto simp: video_progress_def)
qed

lemma video_progress_stay:
  assumes "video_progress d rf N L j res" "\<forall>t. res \<noteq> Next t"
  shows "video_progress d rf N L (Suc j) res"
proof -
  have "1000 < esc_count (pixels d) rf j"
    using assms by (auto simp: video_progress_def not_le[symmetric])
  moreover have "esc_count (pixels d) rf j \<le> esc_count (pixels d) rf (Suc j)"
    by (simp add: esc_count_Suc)
  ultimately show ?thesis using assms(1) by (auto simp: video_progress_def)
qed

lemma pafv_channel_step:
  assumes j: "j < N" "N \<le> length (pixels d)" "N \<le> length rf" "N + 1000 \<le> L"
    and pr: "video_progress d rf N L j (Next t)"
    and that: "p \<le> j"
  shows "video_progress d rf N L (Suc j) (pafv_channel rf d p p p (j - p) t)"
proof -
  let ?cur = "pixels d"
  let ?E = "esc_count ?cur rf"
  from video_progress_Next[OF pr] obtain ob where
    e: "?E j \<le> 1000" and t: "t = (N + ?E j, ?E j, ob)" and l: "length ob = L"
    and ip: "inter_packed ?cur rf N ob j" by blast
  have pj: "p + (j - p) = j" using that by simp
  have rd: "rd ?cur j = Some (?cur ! j)" "rd rf j = Some (rf ! j)"
    using j by (simp_all add: rd_def)
  show ?thesis
  proof (cases "ovf (?cur ! j) (rf ! j)")
    case False
    define ob' where "ob' = ob[j := word_of_int (uint (?cur ! j) - uint (rf ! j))]"
    have r: "pafv_channel rf d p p p (j - p) t = Next (N + ?E j, ?E j, ob')"
      using False j l unfolding pafv_channel_def t
      by (simp add: pj rd wr_def ovf_def Let_def ob'_def del: of_int_diff)
    have "inter_packed ?cur rf N ob' (Suc j)"
      unfolding inter_packed_def
    proof (intro conjI allI impI)
      fix i assume "i < Suc j"
      then show "ob' ! i = vbyte (?cur ! i) (rf ! i)"
        using ip False j l by (cases "i = j") (auto simp: inter_packed_def ob'_def vbyte_def)
    next
      fix i assume i: "i < Suc j" "ovf (?cur ! i) (rf ! i)"
      then have "i < j" using False by (cases "i = j") auto
      moreover have "N + ?E i \<noteq> j" using j by simp
      ultimately show "ob' ! (N + ?E i) = ?cur ! i"
        using ip i by (simp add: inter_packed_def ob'_def)
    qed
    then show ?thesis using r False e l
      by (simp add: video_progress_def esc_count_Suc ob'_def)
  next
    case True
    show ?thesis
    proof (cases "?E j = 1000")
      case sat: True
      have r: "pafv_channel rf d p p p (j - p) t
          = (case PackAndFilterXGGY d ob of None \<Rightarrow> Fault | Some out \<Rightarrow> Return out)"
        using True sat unfolding pafv_channel_def t
        by (simp add: pj rd ovf_def Let_def)
      show ?thesis using r True sat l
        by (auto simp: video_progress_def esc_count_Suc)
    next
      case nsat: False
      then have lt: "?E j < 1000" using e by simp
      define ob' where "ob' = ob[j := 0x80, N + ?E j := ?cur ! j]"
      have r: "pafv_channel rf d p p p (j - p) t = Next (N + ?E j + 1, ?E j + 1, ob')"
        using True nsat j l lt unfolding pafv_channel_def t
        by (simp add: pj rd wr_def ovf_def Let_def ob'_def)
      have "inter_packed ?cur rf N ob' (Suc j)"
        unfolding inter_packed_def
      proof (intro conjI allI impI)
        fix i assume "i < Suc j"
        then show "ob' ! i = vbyte (?cur ! i) (rf ! i)"
          using ip True j l lt by (cases "i = j") (auto simp: inter_packed_def ob'_def vbyte_def)
      next
        fix i assume i: "i < Suc j" "ovf (?cur ! i) (rf ! i)"
        show "ob' ! (N + ?E i) = ?cur ! i"
        proof (cases "i = j")
          case True
          then show ?thesis using j l lt by (simp add: ob'_def)
        next
          case False
          then have ij: "i < j" using i by simp
          then have "?E i < ?E j" using i by (intro esc_count_less)
          then have "N + ?E i \<noteq> N + ?E j" "N + ?E i \<noteq> j" using j by simp_all
          then show ?thesis using ip i ij by (simp add: inter_packed_def ob'_def)
        qed
      qed
      then show ?thesis using r True lt l
        by (simp add: video_progress_def esc_count_Suc ob'_def)
    qed
  qed
qed

lemma video_progress_px_Next:
  assumes "video_progress_px d rf N L k m (Next t)"
  shows "esc_count (pixels d) rf (m * k) \<le> 1000"
    and "\<exists>ob. t = (m * k, m * k, m * k, N + esc_count (pixels d) rf (m * k),
                    esc_count (pixels d) rf (m * k), ob)
            \<and> length ob = L \<and> inter_packed (pixels d) rf N ob (m * k)"
proof -
  show e: "esc_count (pixels d) rf (m * k) \<le> 1000"
  proof (rule ccontr)
    assume "\<not> esc_count (pixels d) rf (m * k) \<le> 1000"
    then obtain ob where
      "Next t = (case PackAndFilterXGGY d ob of None \<Rightarrow> Fault | Some out \<Rightarrow> Return out)"
      using assms by (auto simp: video_progress_px_def)
    then show False by (cases "PackAndFilterXGGY d ob") simp_all
  qed
  then show "\<exists>ob. t = (m * k, m * k, m * k, N + esc_count (pixels d) rf (m * k),
                    esc_count (pixels d) rf (m * k), ob)
            \<and> length ob = L \<and> inter_packed (pixels d) rf N ob (m * k)"
    using assms by (auto simp: video_progress_px_def)
qed

lemma video_progress_px_stay:
  assumes "video_progress_px d rf N L k m res" "\<forall>t. res \<noteq> Next t"
  shows "video_progress_px d rf N L k (Suc m) res"
proof -
  have "1000 < esc_count (pixels d) rf (m * k)"
    using assms by (auto simp: video_progress_px_def not_le[symmetric])
  moreover have "esc_count (pixels d) rf (m * k) \<le> esc_count (pixels d) rf (Suc m * k)"
    by (intro esc_count_mono) simp
  ultimately show ?thesis using assms(1) by (auto simp: video_progress_px_def)
qed

lemma pafv_pixel_step:
  assumes m: "m < n" and N: "N = n * k"
    and len: "N \<le> length (pixels d)" "N \<le> length rf" "N + 1000 \<le> L"
    and pr: "video_progress_px d rf N L k m (Next t)"
  shows "video_progress_px d rf N L k (Suc m) (pafv_pixel k rf d t)"
proof -
  let ?E = "esc_count (pixels d) rf"
  define p where "p = m * k"
  from video_progress_px_Next[OF pr] obtain ob where
    e: "?E p \<le> 1000" and t: "t = (p, p, p, N + ?E p, ?E p, ob)" and l: "length ob = L"
    and ip: "inter_packed (pixels d) rf N ob p" by (auto simp: p_def)
  have "Suc m * k \<le> n * k" using m by (intro mult_le_mono1) simp
  then have pk: "p + k \<le> N" by (simp add: p_def N)
  define Q where "Q = (\<lambda>c res. video_progress d rf N L (p + c) res)"
  have "Q k (for_upto_ret k (pafv_channel rf d p p p) (N + ?E p, ?E p, ob))"
  proof (rule for_upto_ret_rule)
    show "Q 0 (Next (N + ?E p, ?E p, ob))"
      using e l ip by (simp add: Q_def video_progress_def)
  next
    fix c t' assume c: "c < k" and q: "Q c (Next t')"
    have "video_progress d rf N L (Suc (p + c)) (pafv_channel rf d p p p (p + c - p) t')"
      using c pk len q by (intro pafv_channel_step) (simp_all add: Q_def)
    then show "Q (Suc c) (pafv_channel rf d p p p c t')" by (simp add: Q_def)
  next
    fix c r assume "Q c r" "\<forall>t. r \<noteq> Next t"
    then show "Q (Suc c) r" using video_progress_stay[of d rf N L "p + c" r] by (simp add: Q_def)
  qed
  then have vp: "video_progress d rf N L (p + k) (for_upto_ret k (pafv_channel rf d p p p) (N + ?E p, ?E p, ob))"
    by (simp add: Q_def)
  have pk': "Suc m * k = p + k" by (simp add: p_def)
  show ?thesis
  proof (cases "?E (p + k) \<le> 1000")
    case True
    then obtain ob' where
      "for_upto_ret k (pafv_channel rf d p p p) (N + ?E p, ?E p, ob) = Next (N + ?E (p + k), ?E (p + k), ob')"
      "length ob' = L" "inter_packed (pixels d) rf N ob' (p + k)"
      using vp by (auto simp: video_progress_def)
    then show ?thesis using True unfolding video_progress_px_def pk' pafv_pixel_def t
      by simp
  next
    case False
    then obtain ob' where "length ob' = L"
      "for_upto_ret k (pafv_channel rf d p p p) (N + ?E p, ?E p, ob)
         = (case PackAndFilterXGGY d ob' of None \<Rightarrow> Fault | Some out \<Rightarrow> Return out)"
      using vp by (auto simp: video_progress_def)
    then show ?thesis using False unfolding video_progress_px_def pk' pafv_pixel_def t
      by (cases "PackAndFilterXGGY d ob'") auto
  qed
qed

lemma PackAndFilterVideo_ok:
  assumes d: "HeightPixels d = H" "WidthPixels d = W"
    and len: "H * W * k \<le> length (pixels d)" "H * W * k \<le> length (pixels r)"
       "H * W * k + 1000 \<le> length out" "H * W * k < 2 ^ 32"
  shows "(esc_count (pixels d) (pixels r) (H * W * k) \<le> 1000 \<longrightarrow>
            (\<exists>ob. PackAndFilterVideo k r d out
                    = Some (ob, int (esc_count (pixels d) (pixels r) (H * W * k)))
               \<and> length ob = length out
               \<and> inter_packed (pixels d) (pixels r) (H * W * k) ob (H * W * k)))
       \<and> (1000 < esc_count (pixels d) (pixels r) (H * W * k) \<longrightarrow>
            (\<exists>ob. length ob = length out
               \<and> PackAndFilterVideo k r d out
                    = map_option (\<lambda>out'. (out', - 1)) (PackAndFilterXGGY d ob)))"
proof -
  let ?E = "esc_count (pixels d) (pixels r)"
  define N where "N = H * W * k"
  have hw: "H * W < 2 ^ 32 \<or> k = 0" using len(4)
    by (cases k) (auto intro: le_less_trans[rotated])
  have ov0: "u32 (u32 (H * W) * k) = N"
  proof (cases "k = 0")
    case True then show ?thesis by (simp add: N_def u32_def)
  next
    case False
    then have "H * W < 2 ^ 32" using hw by simp
    then show ?thesis using len(4) by (simp add: u32_id N_def)
  qed
  define res where "res = for_upto_ret (H * W) (\<lambda>i. pafv_pixel k (pixels r) d) (0, 0, 0, N, 0, out)"
  have "video_progress_px d (pixels r) N (length out) k (H * W) res"
    unfolding res_def
  proof (rule for_upto_ret_rule)
    show "video_progress_px d (pixels r) N (length out) k 0 (Next (0, 0, 0, N, 0, out))"
      by (simp add: video_progress_px_def inter_packed_def)
  next
    fix m t assume "m < H * W" "video_progress_px d (pixels r) N (length out) k m (Next t)"
    then show "video_progress_px d (pixels r) N (length out) k (Suc m) (pafv_pixel k (pixels r) d t)"
      using len by (intro pafv_pixel_step[where n = "H * W"]) (simp_all add: N_def)
  next
    fix m res' assume "video_progress_px d (pixels r) N (length out) k m res'" "\<forall>t. res' \<noteq> Next t"
    then show "video_progress_px d (pixels r) N (length out) k (Suc m) res'"
      by (rule video_progress_px_stay)
  qed
  then have vp: "video_progress_px d (pixels r) N (length out) k (H * W) res" .
  have pv: "PackAndFilterVideo k r d out =
     (case res of Fault \<Rightarrow> None | Return out' \<Rightarrow> Some (out', - 1)
      | Next (rp, ip, op, overflow, overflowCount, out') \<Rightarrow> Some (out', int overflowCount))"
    by (simp add: PackAndFilterVideo_def Let_def d for_upto_ret_flat ov0 res_def)
  show ?thesis
  proof (intro conjI impI)
    assume "?E (H * W * k) \<le> 1000"
    then obtain ob where "res = Next (N, N, N, N + ?E N, ?E N, ob)" "length ob = length out"
      "inter_packed (pixels d) (pixels r) N ob N"
      using vp by (auto simp: video_progress_px_def N_def)
    then show "\<exists>ob. PackAndFilterVideo k r d out = Some (ob, int (?E (H * W * k)))
               \<and> length ob = length out
               \<and> inter_packed (pixels d) (pixels r) (H * W * k) ob (H * W * k)"
      by (auto simp: pv N_def)
  next
    assume "1000 < ?E (H * W * k)"
    then obtain ob where ob: "length ob = length out"
      "res = (case PackAndFilterXGGY d ob of None \<Rightarrow> Fault | Some out' \<Rightarrow> Return out')"
      using vp by (auto simp: video_progress_px_def N_def)
    have "PackAndFilterVideo k r d out = map_option (\<lambda>out'. (out', - 1)) (PackAndFilterXGGY d ob)"
      unfolding pv ob(2) by (cases "PackAndFilterXGGY d ob") simp_all
    then show "\<exists>ob. length ob = length out
               \<and> PackAndFilterVideo k r d out
                    = map_option (\<lambda>out'. (out', - 1)) (PackAndFilterXGGY d ob)"
      using ob(1) by blast
  qed
qed

lemma for_upto_add:
  "for_upto (m + n) (\<lambda>i. f) s =
     (case for_upto m (\<lambda>i. f) s of None \<Rightarrow> None | Some t \<Rightarrow> for_upto n (\<lambda>i. f) t)"
proof (induction n)
  case 0
  then show ?case by (simp split: option.splits)
next
  case (Suc n)
  then show ?case by (simp split: option.splits)
qed

lemma for_upto_flat:
  "for_upto a (\<lambda>y. for_upto b (\<lambda>x. f)) s = for_upto (a * b) (\<lambda>i. f) s"
proof (induction a)
  case 0
  then show ?case by simp
next
  case (Suc a)
  have "for_upto (Suc a * b) (\<lambda>i. f) s = for_upto (a * b + b) (\<lambda>i. f) s"
    by (simp add: add.commute)
  then show ?case using Suc by (simp add: for_upto_add)
qed

lemma uauv_pixel_ok:
  assumes len: "p + k \<le> N" "N \<le> length inb" "N + esc_count cur rf N \<le> length inb"
       "N \<le> length rf" "N \<le> length out"
    and enc: "inter_packed cur rf N inb N"
    and pre: "\<forall>i<p. out ! i = cur ! i"
  shows "\<exists>out'. uauv_pixel k rf inb (p, p, p, N + esc_count cur rf p, out)
            = Some (p + k, p + k, p + k, N + esc_count cur rf (p + k), out')
         \<and> length out' = length out \<and> (\<forall>i<p + k. out' ! i = cur ! i)"
proof -
  let ?E = "esc_count cur rf"
  define I where "I = (\<lambda>c (t :: nat \<times> byte list). case t of (ov, ob) \<Rightarrow>
      ov = N + ?E (p + c) \<and> length ob = length out \<and> (\<forall>i<p + c. ob ! i = cur ! i))"
  have "\<exists>s'. for_upto k (uauv_channel rf inb p p p) (N + ?E p, out) = Some s' \<and> I k s'"
  proof (rule for_upto_rule)
    show "I 0 (N + ?E p, out)" using pre by (simp add: I_def)
  next
    fix c t assume c: "c < k" and t: "I c t"
    obtain ov ob where [simp]: "t = (ov, ob)" by (cases t)
    define j where "j = p + c"
    from t have ov: "ov = N + ?E j" and lo: "length ob = length out"
      and fo: "\<forall>i<j. ob ! i = cur ! i" by (auto simp: I_def j_def)
    have j: "j < N" using c len by (simp add: j_def)
    have b: "inb ! j = vbyte (cur ! j) (rf ! j)"
      using enc j by (simp add: inter_packed_def)
    show "\<exists>t'. uauv_channel rf inb p p p c t = Some t' \<and> I (Suc c) t'"
    proof (cases "ovf (cur ! j) (rf ! j)")
      case True
      then have b80: "inb ! j = 0x80" using b by (simp add: vbyte_def)
      have lit: "inb ! (N + ?E j) = cur ! j"
        using enc j True by (simp add: inter_packed_def)
      have "?E (Suc j) \<le> ?E N" using j by (intro esc_count_mono) simp
      then have inr: "N + ?E j < length inb" using len True by (simp add: esc_count_Suc)
      have "uauv_channel rf inb p p p c t = Some (N + ?E j + 1, ob[j := cur ! j])"
        using j len lo inr b80 lit
        by (simp add: uauv_channel_def rd_def wr_def ov j_def[symmetric])
      moreover have "I (Suc c) (N + ?E j + 1, ob[j := cur ! j])"
        using True fo lo j len
        by (auto simp: I_def j_def[symmetric] esc_count_Suc nth_list_update less_Suc_eq)
      ultimately show ?thesis by simp
    next
      case False
      then have n80: "inb ! j \<noteq> 0x80" using b vbyte_escape[of "cur ! j" "rf ! j"] by simp
      have val: "rf ! j + inb ! j = cur ! j" using b False by (simp add: vbyte_add)
      have "uauv_channel rf inb p p p c t = Some (N + ?E j, ob[j := cur ! j])"
        using j len lo n80 val
        by (simp add: uauv_channel_def rd_def wr_def ov j_def[symmetric])
      moreover have "I (Suc c) (N + ?E j, ob[j := cur ! j])"
        using False fo lo j len
        by (auto simp: I_def j_def[symmetric] esc_count_Suc nth_list_update less_Suc_eq)
      ultimately show ?thesis by simp
    qed
  qed
  then show ?thesis by (auto simp: uauv_pixel_def I_def)
qed

lemma UnpackAndUnfilterVideo_ok:
  assumes d: "HeightPixels d' = H" "WidthPixels d' = W"
    and len: "H * W * k \<le> length inb" "H * W * k + esc_count cur (pixels r) (H * W * k) \<le> length inb"
       "H * W * k \<le> length (pixels r)" "H * W * k \<le> length (pixels d')" "H * W * k < 2 ^ 32"
    and enc: "inter_packed cur (pixels r) (H * W * k) inb (H * W * k)"
  shows "\<exists>out'. UnpackAndUnfilterVideo k r inb d' = Some out' \<and> length out' = length (pixels d')
           \<and> (\<forall>i<H * W * k. out' ! i = cur ! i)"
proof -
  let ?E = "esc_count cur (pixels r)"
  define N where "N = H * W * k"
  have hw: "H * W < 2 ^ 32 \<or> k = 0" using len(5)
    by (cases k) (auto intro: le_less_trans[rotated])
  have ov0: "u32 (u32 (H * W) * k) = N"
  proof (cases "k = 0")
    case True then show ?thesis by (simp add: N_def u32_def)
  next
    case False
    then have "H * W < 2 ^ 32" using hw by simp
    then show ?thesis using len(5) by (simp add: u32_id N_def)
  qed
  define I where "I = (\<lambda>m (t :: nat \<times> nat \<times> nat \<times> nat \<times> byte list). case t of (rp, ip, op, ov, ob) \<Rightarrow>
      rp = m * k \<and> ip = m * k \<and> op = m * k \<and> ov = N + ?E (m * k)
    \<and> length ob = length (pixels d') \<and> (\<forall>i<m * k. ob ! i = cur ! i))"
  have "\<exists>s'. for_upto (H * W) (\<lambda>i. uauv_pixel k (pixels r) inb) (0, 0, 0, N, pixels d') = Some s'
          \<and> I (H * W) s'"
  proof (rule for_upto_rule)
    show "I 0 (0, 0, 0, N, pixels d')" by (simp add: I_def)
  next
    fix m t assume m: "m < H * W" and t: "I m t"
    obtain rp ip op ov ob where [simp]: "t = (rp, ip, op, ov, ob)" by (cases t)
    from t have p: "rp = m * k" "ip = m * k" "op = m * k" "ov = N + ?E (m * k)"
      and lo: "length ob = length (pixels d')" and fo: "\<forall>i<m * k. ob ! i = cur ! i"
      by (auto simp: I_def)
    have "Suc m * k \<le> H * W * k" using m by (intro mult_le_mono1) simp
    then have b: "m * k + k \<le> N" by (simp add: N_def)
    from uauv_pixel_ok[OF b _ _ _ _ _ fo, of inb "pixels r"] len lo enc
    obtain ob' where "uauv_pixel k (pixels r) inb (m * k, m * k, m * k, N + ?E (m * k), ob)
            = Some (m * k + k, m * k + k, m * k + k, N + ?E (m * k + k), ob')"
        "length ob' = length ob" "\<forall>i<m * k + k. ob' ! i = cur ! i"
      by (auto simp: N_def)
    then show "\<exists>t'. uauv_pixel k (pixels r) inb t = Some t' \<and> I (Suc m) t'"
      using p lo by (simp add: I_def add.commute)
  qed
  then show ?thesis
    by (auto simp: UnpackAndUnfilterVideo_def Let_def d for_upto_flat ov0 I_def N_def)
qed

lemma esc_count_all:
  "(\<forall>i<j. ovf (cur ! i) (rf ! i)) \<Longrightarrow> esc_count cur rf j = j"
  by (induction j) (simp_all add: esc_count_Suc)

lemma pixels_flat_frame [simp]: "pixels (flat_frame w h v) = replicate (w * h) v"
  by (simp add: flat_frame_def pixels_def)

lemma flat_frame_dims [simp]:
  "HeightPixels (flat_frame w h v) = h" "WidthPixels (flat_frame w h v) = w"
  by (simp_all add: flat_frame_def)

lemma esc_count_flat:
  "j \<le> w * h \<Longrightarrow> esc_count (pixels (flat_frame w h 200)) (pixels (flat_frame w h 0)) j = j"
  by (rule esc_count_all) (simp add: ovf_def)

text \<open>
  C3, amended. For a pair whose buffers hold the image of \<open>H * W * k\<close> bytes (fewer than
  \<open>2 ^ 32\<close>) and an output buffer with 1000 bytes beyond the main region: the inter filter
  returns the number of per-channel deltas outside [-127, +127] as long as this number is at
  most 1000, so with exactly 999 or exactly 1000 overflows there is no fallback. With more
  than 1000 overflows, and even width and height, the function returns -1 and the output
  buffer holds, from its start, the Bayer encoding of the current image.
\<close>

theorem C3_saturation_threshold:
  assumes "HeightPixels d = H" "WidthPixels d = W"
    and "H * W * k \<le> length (pixels d)" "H * W * k \<le> length (pixels r)"
    and "H * W * k + 1000 \<le> length out" "H * W * k < 2 ^ 32"
  shows "(esc_count (pixels d) (pixels r) (H * W * k) \<le> 1000 \<longrightarrow>
            (\<exists>ob. PackAndFilterVideo k r d out
                    = Some (ob, int (esc_count (pixels d) (pixels r) (H * W * k)))
               \<and> length ob = length out))
       \<and> (1000 < esc_count (pixels d) (pixels r) (H * W * k) \<longrightarrow> even H \<longrightarrow> even W \<longrightarrow>
            (\<exists>out'. PackAndFilterVideo k r d out = Some (out', - 1)
               \<and> length out' = length out
               \<and> bayer (W div 2) (H div 2 * (W div 2)) (pixels d) out' (H div 2)))"
proof (intro conjI impI)
  assume "esc_count (pixels d) (pixels r) (H * W * k) \<le> 1000"
  then show "\<exists>ob. PackAndFilterVideo k r d out
                    = Some (ob, int (esc_count (pixels d) (pixels r) (H * W * k)))
               \<and> length ob = length out"
    using PackAndFilterVideo_ok[OF assms] by blast
next
  assume e: "1000 < esc_count (pixels d) (pixels r) (H * W * k)" and eh: "even H" and ew: "even W"
  from eh ew obtain h w where hw: "H = 2 * h" "W = 2 * w" by (auto elim!: evenE)
  have k: "0 < k"
  proof (rule ccontr)
    assume "\<not> 0 < k"
    then have "esc_count (pixels d) (pixels r) (H * W * k) = 0" by (simp add: esc_count_def)
    with e show False by simp
  qed
  then have "h * w \<le> h * w * k" by simp
  then have le: "4 * (h * w) \<le> H * W * k" by (simp add: hw)
  from PackAndFilterVideo_ok[OF assms] e obtain ob where l: "length ob = length out"
    and r: "PackAndFilterVideo k r d out = map_option (\<lambda>out'. (out', - 1)) (PackAndFilterXGGY d ob)"
    by blast
  have d: "HeightPixels d = 2 * h" "WidthPixels d = 2 * w" using assms(1,2) hw by simp_all
  have b: "4 * (h * w) \<le> length (pixels d)" "4 * (h * w) \<le> length ob" "4 * (h * w) < 2 ^ 32"
    using le assms(3,5,6) l by simp_all
  from PackAndFilterXGGY_ok[OF d b] obtain out' where x: "PackAndFilterXGGY d ob = Some out'"
    and lo: "length out' = length ob" and by': "bayer w (h * w) (pixels d) out' h"
    by blast
  have "bayer (W div 2) (H div 2 * (W div 2)) (pixels d) out' (H div 2)"
    using by' by (simp add: hw)
  then show "\<exists>out'. PackAndFilterVideo k r d out = Some (out', - 1)
               \<and> length out' = length out
               \<and> bayer (W div 2) (H div 2 * (W div 2)) (pixels d) out' (H div 2)"
    using r x lo l by simp
qed

theorem C3_saturation_threshold_witness:
  "HeightPixels (flat_frame 2 502 200) = 502 \<and> WidthPixels (flat_frame 2 502 200) = 2
   \<and> 502 * 2 * 1 \<le> length (pixels (flat_frame 2 502 200))
   \<and> 502 * 2 * 1 \<le> length (pixels (flat_frame 2 502 0))
   \<and> 502 * 2 * 1 + 1000 \<le> length (replicate 2004 (0 :: byte)) \<and> (502 * 2 * 1 :: nat) < 2 ^ 32
   \<and> 1000 < esc_count (pixels (flat_frame 2 502 200)) (pixels (flat_frame 2 502 0)) (502 * 2 * 1)
   \<and> even (502 :: nat) \<and> even (2 :: nat)
   \<and> (\<exists>out'. PackAndFilterVideo 1 (flat_frame 2 502 0) (flat_frame 2 502 200) (replicate 2004 0)
                = Some (out', - 1))
   \<and> HeightPixels (flat_frame 999 1 200) = 1 \<and> WidthPixels (flat_frame 999 1 200) = 999
   \<and> 1 * 999 * 1 \<le> length (pixels (flat_frame 999 1 200))
   \<and> 1 * 999 * 1 \<le> length (pixels (flat_frame 999 1 0))
   \<and> 1 * 999 * 1 + 1000 \<le> length (replicate 1999 (0 :: byte)) \<and> (1 * 999 * 1 :: nat) < 2 ^ 32
   \<and> esc_count (pixels (flat_frame 999 1 200)) (pixels (flat_frame 999 1 0)) (1 * 999 * 1) \<le> 1000
   \<and> (\<exists>ob. PackAndFilterVideo 1 (flat_frame 999 1 0) (flat_frame 999 1 200) (replicate 1999 0)
              = Some (ob, 999))"
proof -
  have h: "HeightPixels (flat_frame 2 502 200) = 502" "WidthPixels (flat_frame 2 502 200) = 2"
    "502 * 2 * 1 \<le> length (pixels (flat_frame 2 502 200))"
    "502 * 2 * 1 \<le> length (pixels (flat_frame 2 502 0))"
    "502 * 2 * 1 + 1000 \<le> length (replicate 2004 (0 :: byte))" "(502 * 2 * 1 :: nat) < 2 ^ 32"
    by simp_all
  have e: "esc_count (pixels (flat_frame 2 502 200)) (pixels (flat_frame 2 502 0)) (502 * 2 * 1) = 1004"
    using esc_count_flat[of 1004 2 502] by simp
  have ev: "even (502 :: nat)" "even (2 :: nat)" by simp_all
  have a: "\<exists>out'. PackAndFilterVideo 1 (flat_frame 2 502 0) (flat_frame 2 502 200) (replicate 2004 0)
                = Some (out', - 1)"
    using C3_saturation_threshold[OF h] e ev by auto
  have g: "HeightPixels (flat_frame 999 1 200) = 1" "WidthPixels (flat_frame 999 1 200) = 999"
    "1 * 999 * 1 \<le> length (pixels (flat_frame 999 1 200))"
    "1 * 999 * 1 \<le> length (pixels (flat_frame 999 1 0))"
    "1 * 999 * 1 + 1000 \<le> length (replicate 1999 (0 :: byte))" "(1 * 999 * 1 :: nat) < 2 ^ 32"
    by simp_all
  have f: "esc_count (pixels (flat_frame 999 1 200)) (pixels (flat_frame 999 1 0)) (1 * 999 * 1) = 999"
    using esc_count_flat[of 999 999 1] by simp
  have b: "\<exists>ob. PackAndFilterVideo 1 (flat_frame 999 1 0) (flat_frame 999 1 200) (replicate 1999 0)
              = Some (ob, 999)"
    using C3_saturation_threshold[OF g] f by auto
  show ?thesis using h e ev a g f b by simp
qed

text \<open>
  C3, as stated, fails: a pair with exactly 1000 overflows does not trigger the
  fallback; the filter returns 1000.
\<close>

theorem C3_exactly_1000_counterexample:
  "esc_count (pixels (flat_frame 1000 1 200)) (pixels (flat_frame 1000 1 0)) 1000 = 1000
   \<and> map_option snd
        (PackAndFilterVideo 1 (flat_frame 1000 1 0) (flat_frame 1000 1 200) (replicate 2000 0))
      = Some 1000"
proof -
  have e: "esc_count (pixels (flat_frame 1000 1 200)) (pixels (flat_frame 1000 1 0)) (1 * 1000 * 1) = 1000"
    using esc_count_flat[of 1000 1000 1] by simp
  have "\<exists>ob. PackAndFilterVideo 1 (flat_frame 1000 1 0) (flat_frame 1000 1 200) (replicate 2000 0)
             = Some (ob, int (esc_count (pixels (flat_frame 1000 1 200)) (pixels (flat_frame 1000 1 0))
                              (1 * 1000 * 1)))"
    using PackAndFilterVideo_ok[of "flat_frame 1000 1 200" 1 1000 1 "flat_frame 1000 1 0" "replicate 2000 0"] e
    by auto
  then show ?thesis using e by auto
qed

text \<open>
  C5. When the inter filter completes (at most 1000 overflows), a byte of the main stream
  is 0x80 exactly where the delta is outside [-127, +127]; every other byte is the delta as
  a signed byte in [-127, +127]; the literal of each escape sits in the overflow region, in
  the order of the escapes; and the inverse filter, which tests for 0x80, gives back the
  current image.
\<close>

theorem C5_escape_unambiguous:
  assumes "HeightPixels d = H" "WidthPixels d = W"
    and "H * W * k \<le> length (pixels d)" "H * W * k \<le> length (pixels r)"
    and "H * W * k + 1000 \<le> length out" "H * W * k < 2 ^ 32"
    and "esc_count (pixels d) (pixels r) (H * W * k) \<le> 1000"
  shows "\<exists>ob. PackAndFilterVideo k r d out
                 = Some (ob, int (esc_count (pixels d) (pixels r) (H * W * k)))
           \<and> (\<forall>j<H * W * k.
                 (ob ! j = 0x80 \<longleftrightarrow> ovf (pixels d ! j) (pixels r ! j))
               \<and> (ob ! j \<noteq> 0x80 \<longrightarrow>
                     sint (ob ! j) = uint (pixels d ! j) - uint (pixels r ! j)
                   \<and> - 127 \<le> sint (ob ! j) \<and> sint (ob ! j) \<le> 127)
               \<and> (ob ! j = 0x80 \<longrightarrow>
                     ob ! (H * W * k + esc_count (pixels d) (pixels r) j) = pixels d ! j))
           \<and> (\<forall>d'. HeightPixels d' = H \<and> WidthPixels d' = W \<and> length (pixels d') = H * W * k
                 \<longrightarrow> UnpackAndUnfilterVideo k r ob d' = Some (take (H * W * k) (pixels d)))"
proof -
  let ?N = "H * W * k"
  let ?E = "esc_count (pixels d) (pixels r)"
  from PackAndFilterVideo_ok[OF assms(1-6)] assms(7)
  obtain ob where r: "PackAndFilterVideo k r d out = Some (ob, int (?E ?N))"
    and l: "length ob = length out" and ip: "inter_packed (pixels d) (pixels r) ?N ob ?N"
    by blast
  have main: "(ob ! j = 0x80 \<longleftrightarrow> ovf (pixels d ! j) (pixels r ! j))
               \<and> (ob ! j \<noteq> 0x80 \<longrightarrow>
                     sint (ob ! j) = uint (pixels d ! j) - uint (pixels r ! j)
                   \<and> - 127 \<le> sint (ob ! j) \<and> sint (ob ! j) \<le> 127)
               \<and> (ob ! j = 0x80 \<longrightarrow> ob ! (?N + ?E j) = pixels d ! j)" if j: "j < ?N" for j
  proof -
    have b: "ob ! j = vbyte (pixels d ! j) (pixels r ! j)"
      and lit: "ovf (pixels d ! j) (pixels r ! j) \<Longrightarrow> ob ! (?N + ?E j) = pixels d ! j"
      using ip j by (simp_all add: inter_packed_def)
    show ?thesis
      using vbyte_escape[of "pixels d ! j" "pixels r ! j"] vbyte_signed[of "pixels d ! j" "pixels r ! j"] lit
      unfolding b by blast
  qed
  have dec: "UnpackAndUnfilterVideo k r ob d' = Some (take ?N (pixels d))"
    if d': "HeightPixels d' = H" "WidthPixels d' = W" "length (pixels d') = ?N" for d'
  proof -
    have b: "?N \<le> length ob" "?N + ?E ?N \<le> length ob" "?N \<le> length (pixels d')"
      using l assms(5,7) d' by simp_all
    from UnpackAndUnfilterVideo_ok[OF d'(1,2) b(1,2) assms(4) b(3) assms(6) ip]
    obtain out' where o: "UnpackAndUnfilterVideo k r ob d' = Some out'"
      "length out' = length (pixels d')" "\<forall>i<?N. out' ! i = pixels d ! i" by blast
    have "out' = take ?N (pixels d)"
      using o d' assms(3) by (intro nth_equalityI) simp_all
    then show ?thesis using o by simp
  qed
  show ?thesis using r main dec by blast
qed

theorem C5_escape_unambiguous_witness:
  "HeightPixels video_cur = 1 \<and> WidthPixels video_cur = 2
   \<and> 1 * 2 * 1 \<le> length (pixels video_cur) \<and> 1 * 2 * 1 \<le> length (pixels video_ref)
   \<and> 1 * 2 * 1 + 1000 \<le> length (replicate 1002 (0 :: byte)) \<and> (1 * 2 * 1 :: nat) < 2 ^ 32
   \<and> esc_count (pixels video_cur) (pixels video_ref) (1 * 2 * 1) \<le> 1000
   \<and> (\<exists>ob. PackAndFilterVideo 1 video_ref video_cur (replicate 1002 0) = Some (ob, 1)
          \<and> ob ! 0 = 0x80 \<and> sint (ob ! 1) = 3 \<and> ob ! 2 = 200
          \<and> UnpackAndUnfilterVideo 1 video_ref ob video_ref = Some [200, 5])"
proof -
  have h: "HeightPixels video_cur = 1" "WidthPixels video_cur = 2"
    "1 * 2 * 1 \<le> length (pixels video_cur)" "1 * 2 * 1 \<le> length (pixels video_ref)"
    "1 * 2 * 1 + 1000 \<le> length (replicate 1002 (0 :: byte))" "(1 * 2 * 1 :: nat) < 2 ^ 32"
    by (simp_all add: video_cur_def video_ref_def pixels_def)
  have o: "ovf (pixels video_cur ! 0) (pixels video_ref ! 0)"
    "\<not> ovf (pixels video_cur ! 1) (pixels video_ref ! 1)"
    by (simp_all add: video_cur_def video_ref_def pixels_def ovf_def)
  have two: "(1 * 2 * 1 :: nat) = Suc (Suc 0)" by simp
  have e: "esc_count (pixels video_cur) (pixels video_ref) (1 * 2 * 1) = 1"
    "esc_count (pixels video_cur) (pixels video_ref) 0 = 0"
    unfolding two esc_count_Suc using o by simp_all
  then have e': "esc_count (pixels video_cur) (pixels video_ref) (1 * 2 * 1) \<le> 1000" by simp
  have p: "pixels video_cur = [200, 5]" "pixels video_ref = [0, 2]"
    "HeightPixels video_ref = 1" "WidthPixels video_ref = 2"
    by (simp_all add: video_cur_def video_ref_def pixels_def)
  from C5_escape_unambiguous[OF h e'] obtain ob where
    r: "PackAndFilterVideo 1 video_ref video_cur (replicate 1002 0)
          = Some (ob, int (esc_count (pixels video_cur) (pixels video_ref) (1 * 2 * 1)))"
    and m: "\<forall>j<1 * 2 * 1.
                 (ob ! j = 0x80 \<longleftrightarrow> ovf (pixels video_cur ! j) (pixels video_ref ! j))
               \<and> (ob ! j \<noteq> 0x80 \<longrightarrow>
                     sint (ob ! j) = uint (pixels video_cur ! j) - uint (pixels video_ref ! j)
                   \<and> - 127 \<le> sint (ob ! j) \<and> sint (ob ! j) \<le> 127)
               \<and> (ob ! j = 0x80 \<longrightarrow>
                     ob ! (1 * 2 * 1 + esc_count (pixels video_cur) (pixels video_ref) j)
                       = pixels video_cur ! j)"
    and dd: "\<forall>d'. HeightPixels d' = 1 \<and> WidthPixels d' = 2 \<and> length (pixels d') = 1 * 2 * 1
                 \<longrightarrow> UnpackAndUnfilterVideo 1 video_ref ob d'
                       = Some (take (1 * 2 * 1) (pixels video_cur))"
    by blast
  have m0: "ob ! 0 = 0x80" "ob ! 2 = 200"
    using m[rule_format, of 0] o(1) e(2) by (simp_all add: p)
  have m1: "sint (ob ! 1) = 3" using m[rule_format, of 1] o(2) by (simp add: p)
  have d2: "UnpackAndUnfilterVideo 1 video_ref ob video_ref = Some [200, 5]"
    using dd[rule_format, of video_ref] by (simp add: p)
  show ?thesis using h e' r e(1) m0 m1 d2 by auto
qed

lemmas paf_defs = PackAndFilter_def paf_row_def paf_pixel_def paf_channel_def
  UnpackAndUnfilter_def uau_row_def uau_pixel_def uau_channel_def

text \<open>
  C6. A buffer without data, shorter than the 8-byte header, or whose magic field is not
  the intra magic is rejected by \<open>ZPNG_Decompress\<close>: the descriptor returned has a null
  buffer pointer, zero byte count and zero dimensions, channels, depth and stride; its
  intra flag keeps the initial value 1.
\<close>

theorem C6_magic_discipline:
  assumes "Data buffer = None \<or> Bytes buffer < 8
           \<or> (\<exists>mem. Data buffer = Some mem \<and> Bytes buffer \<le> length mem
                  \<and> load16 (byte_order z) (mem ! 0) (mem ! 1) \<noteq> ZPNG_HEADER_MAGIC)"
  shows "ZPNG_Decompress z buffer
         = Some \<lparr>Buffer = \<lparr>Data = None, Bytes = 0\<rparr>, BytesPerChannel = 0, Channels = 0,
                 WidthPixels = 0, HeightPixels = 0, StrideBytes = 0, IsIFrame = 1\<rparr>"
  using assms
  by (auto simp: ZPNG_Decompress_def ZPNG_DecompressVideo_def Let_def
        ZPNG_HEADER_OVERHEAD_BYTES_def split: option.splits)

theorem C6_magic_discipline_witness:
  "(Data \<lparr>Data = Some [0xFB, 0xF8, 1, 0, 1, 0, 1, 1, 0x42], Bytes = 9\<rparr> = None
      \<or> Bytes \<lparr>Data = Some [0xFB, 0xF8, 1, 0, 1, 0, 1, 1, 0x42 :: byte], Bytes = 9\<rparr> < 8
      \<or> (\<exists>mem. Data \<lparr>Data = Some [0xFB, 0xF8, 1, 0, 1, 0, 1, 1, 0x42], Bytes = 9\<rparr> = Some mem
             \<and> Bytes \<lparr>Data = Some [0xFB, 0xF8, 1, 0, 1, 0, 1, 1, 0x42 :: byte], Bytes = 9\<rparr> \<le> length mem
             \<and> load16 (byte_order store_coder) (mem ! 0) (mem ! 1) \<noteq> ZPNG_HEADER_MAGIC))
   \<and> ZPNG_Decompress store_coder \<lparr>Data = Some [0xFB, 0xF8, 1, 0, 1, 0, 1, 1, 0x42], Bytes = 9\<rparr>
       = Some \<lparr>Buffer = \<lparr>Data = None, Bytes = 0\<rparr>, BytesPerChannel = 0, Channels = 0,
               WidthPixels = 0, HeightPixels = 0, StrideBytes = 0, IsIFrame = 1\<rparr>"
proof -
  have h: "Data \<lparr>Data = Some [0xFB, 0xF8, 1, 0, 1, 0, 1, 1, 0x42], Bytes = 9\<rparr> = None
      \<or> Bytes \<lparr>Data = Some [0xFB, 0xF8, 1, 0, 1, 0, 1, 1, 0x42 :: byte], Bytes = 9\<rparr> < 8
      \<or> (\<exists>mem. Data \<lparr>Data = Some [0xFB, 0xF8, 1, 0, 1, 0, 1, 1, 0x42], Bytes = 9\<rparr> = Some mem
             \<and> Bytes \<lparr>Data = Some [0xFB, 0xF8, 1, 0, 1, 0, 1, 1, 0x42 :: byte], Bytes = 9\<rparr> \<le> length mem
             \<and> load16 (byte_order store_coder) (mem ! 0) (mem ! 1) \<noteq> ZPNG_HEADER_MAGIC)"
    by (simp add: store_coder_def load16_def ZPNG_HEADER_MAGIC_def)
  show ?thesis using C6_magic_discipline[OF h] h by blast
qed

text \<open>
  C8, as stated, fails on the header bytes: the magic 0xFBF8 is stored through a 16-bit
  field, so a little-endian host writes F8 FB and a big-endian host writes the width and
  the height as 00 01. On neither host do the first eight bytes read FB F8 01 00 01 00 01 01.
\<close>

theorem C8_header_bytes_counterexample:
  "ZPNG_Compress store_coder gray_pixel
     = Some \<lparr>Data = Some [0xF8, 0xFB, 1, 0, 1, 0, 1, 1, 0x42], Bytes = 9\<rparr>
   \<and> ZPNG_Compress store_coder_be gray_pixel
     = Some \<lparr>Data = Some [0xFB, 0xF8, 0, 1, 0, 1, 1, 1, 0x42], Bytes = 9\<rparr>"
  by (simp add: codec_defs paf_defs store_coder_def store_coder_be_def gray_pixel_def eval_simps)

lemma valid_gray_pixel: "valid_intra gray_pixel"
  by (simp add: valid_intra_def gray_pixel_def pixelBytes_of_def pixels_def u32_def)

lemma gray_pixel_packed:
  "pack_pass None gray_pixel (replicate 1001 0) = Some (0x42 # replicate 1000 0, 0)"
proof -
  have "replicate 1001 (0 :: byte) = 0 # replicate 1000 0"
    by (simp add: replicate_numeral_Cons)
  then show ?thesis
    by (simp add: pack_pass_def pixelBytes_of_def gray_pixel_def u32_def paf_defs pixels_def
        rd_def wr_def)
qed

text \<open>
  C8, amended. Compressing the 1x1 one-channel image with the byte 0x42 filters it to the
  byte 0x42 and, on a little-endian host, produces the eight bytes F8 FB 01 00 01 00 01 01
  followed by the entropy payload of that one byte; decoding the buffer returns [0x42].
\<close>

theorem C8_single_gray_pixel:
  assumes c: "zstd_contract z" and e: "byte_order z = LittleEndian"
    and cb: "ZSTD_compressBound z 1 < 2 ^ 32 - 8"
  shows "pack_pass None gray_pixel (replicate 1001 0) = Some (0x42 # replicate 1000 0, 0)
       \<and> (\<exists>payload rest.
             ZSTD_compress z (ZSTD_compressBound z 1) [0x42] = Some payload
           \<and> ZPNG_Compress z gray_pixel
               = Some \<lparr>Data = Some ([0xF8, 0xFB, 1, 0, 1, 0, 1, 1] @ payload @ rest),
                       Bytes = 8 + length payload\<rparr>
           \<and> map_option pixels
               (ZPNG_Decompress z \<lparr>Data = Some ([0xF8, 0xFB, 1, 0, 1, 0, 1, 1] @ payload @ rest),
                                    Bytes = 8 + length payload\<rparr>)
               = Some [0x42])"
proof -
  have bc: "byteCount_of gray_pixel = 1"
    by (simp add: byteCount_of_def pixelBytes_of_def pixelCount_of_def gray_pixel_def u32_def)
  have cb': "ZSTD_compressBound z (byteCount_of gray_pixel) < 2 ^ 32 - 8" using cb by (simp add: bc)
  let ?out = "replicate (8 + ZSTD_compressBound z (byteCount_of gray_pixel)) (0 :: byte)"
  from intra_compress_ok[OF c valid_gray_pixel cb', of "\<lparr>Data = None, Bytes = 0\<rparr>" ?out]
  obtain packing payload where
        pk: "pack_pass None gray_pixel (replicate (byteCount_of gray_pixel + 1000) 0) = Some (packing, 0)"
    and lpk: "length packing = byteCount_of gray_pixel + 1000"
    and ip: "intra_packed gray_pixel (pixels gray_pixel) packing"
    and zc: "ZSTD_compress z (ZSTD_compressBound z (byteCount_of gray_pixel))
               (take (byteCount_of gray_pixel) packing) = Some payload"
    and zd: "ZSTD_decompress z (byteCount_of gray_pixel + 1000) payload
               = Some (take (byteCount_of gray_pixel) packing)"
    and enc: "ZPNG_CompressVideoToBuffer z None gray_pixel \<lparr>Data = None, Bytes = 0\<rparr>
              = Some (0, \<lparr>Data = Some (ZPNG_Header (byte_order z) ZPNG_HEADER_MAGIC gray_pixel @ payload
                                       @ drop (8 + length payload) ?out),
                          Bytes = 8 + length payload\<rparr>)"
    by auto
  have packing: "packing = 0x42 # replicate 1000 0"
    using pk gray_pixel_packed by (simp add: bc)
  have hd: "ZPNG_Header (byte_order z) ZPNG_HEADER_MAGIC gray_pixel = [0xF8, 0xFB, 1, 0, 1, 0, 1, 1]"
    by (simp add: ZPNG_Header_def e store16_def ZPNG_HEADER_MAGIC_def gray_pixel_def)
  have lpk': "byteCount_of gray_pixel \<le> length packing" using lpk by simp
  note dec = intra_decompress_ok[OF valid_gray_pixel ip lpk' zd, of None "drop (8 + length payload) ?out"]
  let ?rest = "drop (8 + length payload) ?out"
  have 1: "ZSTD_compress z (ZSTD_compressBound z 1) [0x42] = Some payload"
    using zc by (simp add: bc packing)
  have 2: "ZPNG_Compress z gray_pixel
               = Some \<lparr>Data = Some ([0xF8, 0xFB, 1, 0, 1, 0, 1, 1] @ payload @ ?rest),
                       Bytes = 8 + length payload\<rparr>"
    unfolding ZPNG_Compress_def enc hd by simp
  have 3: "map_option pixels
               (ZPNG_Decompress z \<lparr>Data = Some ([0xF8, 0xFB, 1, 0, 1, 0, 1, 1] @ payload @ ?rest),
                                    Bytes = 8 + length payload\<rparr>)
               = Some [0x42]"
    using dec unfolding ZPNG_Decompress_def hd
    by (simp add: decoded_image_def pixels_def gray_pixel_def)
  show ?thesis using gray_pixel_packed 1 2 3 by blast
qed

theorem C8_single_gray_pixel_witness:
  "zstd_contract store_coder \<and> byte_order store_coder = LittleEndian
   \<and> ZSTD_compressBound store_coder 1 < 2 ^ 32 - 8
   \<and> pack_pass None gray_pixel (replicate 1001 0) = Some (0x42 # replicate 1000 0, 0)
   \<and> (\<exists>payload rest.
         ZSTD_compress store_coder (ZSTD_compressBound store_coder 1) [0x42] = Some payload
       \<and> ZPNG_Compress store_coder gray_pixel
           = Some \<lparr>Data = Some ([0xF8, 0xFB, 1, 0, 1, 0, 1, 1] @ payload @ rest),
                   Bytes = 8 + length payload\<rparr>
       \<and> map_option pixels
           (ZPNG_Decompress store_coder
              \<lparr>Data = Some ([0xF8, 0xFB, 1, 0, 1, 0, 1, 1] @ payload @ rest),
               Bytes = 8 + length payload\<rparr>)
           = Some [0x42])"
proof -
  have h: "byte_order store_coder = LittleEndian" "ZSTD_compressBound store_coder 1 < 2 ^ 32 - 8"
    by (simp_all add: store_coder_def)
  show ?thesis
    using C8_single_gray_pixel[OF store_coder_contract h] store_coder_contract h by blast
qed

text \<open>
  C10, as stated, fails in Bayer mode: with \<open>bytes_per_channel > 8\<close> and no channels the
  bytes per pixel are 0, yet the Bayer filter runs over width x height pixels and reads
  past the (empty) pixel buffer.
\<close>

theorem C10_bayer_counterexample:
  "pixelBytes_of empty_bayer = 0 \<and> ZPNG_Compress store_coder empty_bayer = None"
  by (simp add: codec_defs xggy_defs store_coder_def empty_bayer_def eval_simps)

text \<open>
  C10, amended. For every descriptor with 0 bytes per pixel that is not in Bayer mode
  (\<open>bytes_per_channel \<le> 8\<close>), or that is encoded against a reference, encoding into a
  fresh buffer does not fail: no filter runs, and the buffer returned is the header
  followed by the entropy encoding of zero bytes.
\<close>

theorem C10_zero_pixel_bytes:
  assumes pb: "pixelBytes_of d = 0" and nb: "BytesPerChannel d \<le> 8 \<or> refData \<noteq> None"
    and c: "zstd_contract z" and cb: "ZSTD_compressBound z 0 < 2 ^ 32 - 8"
  shows "\<exists>payload. ZSTD_compress z (ZSTD_compressBound z 0) [] = Some payload
           \<and> ZPNG_CompressVideoToBuffer z refData d \<lparr>Data = None, Bytes = 0\<rparr>
              = Some (0, \<lparr>Data = Some (ZPNG_Header (byte_order z)
                                (if refData \<noteq> None then ZPNG_VIDEO_HEADER_MAGIC else ZPNG_HEADER_MAGIC) d
                              @ payload @ replicate (ZSTD_compressBound z 0 - length payload) 0),
                          Bytes = 8 + length payload\<rparr>)"
proof -
  let ?cap = "ZSTD_compressBound z 0"
  have bc: "byteCount_of d = 0" by (simp add: byteCount_of_def pb u32_def)
  have u: "u32 ?cap = ?cap" "u32 (8 + ?cap) = 8 + ?cap" using cb by (simp_all add: u32_id)
  have "ZSTD_compressBound z (length ([] :: byte list)) \<le> ?cap" by simp
  with c have "ZSTD_compress z ?cap [] \<noteq> None" unfolding zstd_contract_def by blast
  then obtain payload where zc: "ZSTD_compress z ?cap [] = Some payload" by blast
  with c have lpay: "length payload \<le> ?cap" unfolding zstd_contract_def by blast
  have up: "u32 (8 + u32 (length payload)) = 8 + length payload"
    using lpay cb by (simp add: u32_id)
  have pk: "pack_pass refData d (replicate (u32 (byteCount_of d + 1000)) 0)
              = Some (replicate (u32 (byteCount_of d + 1000)) 0, 0)"
    using pb nb by (cases refData) (auto simp: pack_pass_def)
  let ?out = "replicate (8 + ?cap) (0 :: byte)"
  let ?bo = "\<lparr>Data = None, Bytes = 0\<rparr>"
  have "ZPNG_CompressVideoToBuffer z refData d ?bo
       = Some (0, \<lparr>Data = Some (ZPNG_Header (byte_order z)
                         (if refData \<noteq> None \<and> (0 :: int) \<ge> 0
                          then ZPNG_VIDEO_HEADER_MAGIC else ZPNG_HEADER_MAGIC) d
                      @ payload @ drop (8 + length payload) ?out),
                   Bytes = u32 (8 + u32 (length payload))\<rparr>)"
  proof (rule compress_with[where n = 0 and packing = "replicate (u32 (byteCount_of d + 1000)) 0"])
    show "pixelBytes_of d \<le> 8" by (simp add: pb)
    show "Bytes ?bo = 0 \<or> u32 (8 + u32 (ZSTD_compressBound z (byteCount_of d))) \<le> Bytes ?bo" by simp
    show "(if Bytes ?bo = 0 then Some (replicate (u32 (8 + u32 (ZSTD_compressBound z (byteCount_of d)))) 0)
           else Data ?bo) = Some ?out"
      by (simp add: u bc)
    show "pack_pass refData d (replicate (u32 (byteCount_of d + 1000)) 0)
              = Some (replicate (u32 (byteCount_of d + 1000)) 0, 0)" by (rule pk)
    show "0 = u32 (byteCount_of d + (if (0 :: int) \<ge> 0 then nat 0 else 0))" by (simp add: bc u32_def)
    show "0 \<le> length (replicate (u32 (byteCount_of d + 1000)) (0 :: byte))" by simp
    show "ZSTD_compress z (u32 (ZSTD_compressBound z (byteCount_of d)))
            (take 0 (replicate (u32 (byteCount_of d + 1000)) 0)) = Some payload"
      using zc by (simp add: bc u)
    show "8 + length payload \<le> length ?out" using lpay by simp
  qed
  then have "ZPNG_CompressVideoToBuffer z refData d ?bo
              = Some (0, \<lparr>Data = Some (ZPNG_Header (byte_order z)
                                (if refData \<noteq> None then ZPNG_VIDEO_HEADER_MAGIC else ZPNG_HEADER_MAGIC) d
                              @ payload @ replicate (ZSTD_compressBound z 0 - length payload) 0),
                          Bytes = 8 + length payload\<rparr>)"
    unfolding up by simp
  then show ?thesis using zc by blast
qed

theorem C10_zero_pixel_bytes_witness:
  "pixelBytes_of no_channels = 0 \<and> (BytesPerChannel no_channels \<le> 8 \<or> (None :: ZPNG_ImageData option) \<noteq> None)
   \<and> zstd_contract store_coder \<and> ZSTD_compressBound store_coder 0 < 2 ^ 32 - 8
   \<and> ZPNG_CompressVideoToBuffer store_coder None no_channels \<lparr>Data = None, Bytes = 0\<rparr>
       = Some (0, \<lparr>Data = Some [0xF8, 0xFB, 2, 0, 2, 0, 0, 1], Bytes = 8\<rparr>)"
proof -
  have h: "pixelBytes_of no_channels = 0"
    "BytesPerChannel no_channels \<le> 8 \<or> (None :: ZPNG_ImageData option) \<noteq> None"
    by (simp_all add: no_channels_def pixelBytes_of_def u32_def)
  have b: "ZSTD_compressBound store_coder 0 < 2 ^ 32 - 8" by (simp add: store_coder_def)
  have z: "ZSTD_compress store_coder (ZSTD_compressBound store_coder 0) [] = Some p \<longleftrightarrow> p = []" for p
    by (auto simp: store_coder_def)
  have hd: "ZPNG_Header (byte_order store_coder) ZPNG_HEADER_MAGIC no_channels
              = [0xF8, 0xFB, 2, 0, 2, 0, 0, 1]"
    by (simp add: ZPNG_Header_def store16_def store_coder_def ZPNG_HEADER_MAGIC_def no_channels_def)
  have "ZPNG_CompressVideoToBuffer store_coder None no_channels \<lparr>Data = None, Bytes = 0\<rparr>
       = Some (0, \<lparr>Data = Some [0xF8, 0xFB, 2, 0, 2, 0, 0, 1], Bytes = 8\<rparr>)"
    using C10_zero_pixel_bytes[OF h store_coder_contract b] z hd
    by (auto simp: store_coder_def)
  then show ?thesis using h store_coder_contract b by blast
qed




lemma filtered_agree_img:
  assumes "filtered k W img inb n" "\<forall>i<n * k. img' ! i = img ! i"
  shows "filtered k W img' inb n"
  unfolding filtered_def
proof (intro allI impI)
  fix m c assume m: "m < n" and c: "c < k"
  have a: "m * k + c < n * k" using m c by (rule idx_lt)
  have b: "(m - 1) * k + c < n * k" using c m by (intro idx_lt) simp_all
  show "inb ! (m * k + c) = img' ! (m * k + c) - (if m mod W = 0 then 0 else img' ! ((m - 1) * k + c))"
    using assms m c a b by (simp add: filtered_def)
qed

lemma uau_row_sound:
  assumes len: "(M + W) * k \<le> length inb" "(M + W) * k \<le> length out"
    and M: "M mod W = 0" and f: "filtered k W out inb M"
  shows "\<exists>out'. uau_row k W inb (M * k, M * k, out) = Some ((M + W) * k, (M + W) * k, out')
           \<and> length out' = length out \<and> filtered k W out' inb (M + W)"
proof -
  define J where "J = (\<lambda>x (t :: nat \<times> nat \<times> byte list \<times> byte list). case t of (ip, op, prev, ob) \<Rightarrow>
      ip = (M + x) * k \<and> op = (M + x) * k \<and> length prev = k
    \<and> (\<forall>c<k. prev ! c = (if x = 0 then 0 else ob ! ((M + x - 1) * k + c)))
    \<and> length ob = length out \<and> filtered k W ob inb (M + x))"
  have "\<exists>s'. for_upto W (\<lambda>x. uau_pixel k inb) (M * k, M * k, replicate k 0, out) = Some s' \<and> J W s'"
  proof (rule for_upto_rule)
    show "J 0 (M * k, M * k, replicate k 0, out)" using f by (simp add: J_def)
  next
    fix x t assume x: "x < W" and t: "J x t"
    obtain ip op prev ob where [simp]: "t = (ip, op, prev, ob)" by (cases t)
    from t have ip: "ip = (M + x) * k" "op = (M + x) * k" and lp: "length prev = k"
      and pv: "\<forall>c<k. prev ! c = (if x = 0 then 0 else ob ! ((M + x - 1) * k + c))"
      and lo: "length ob = length out" and fo: "filtered k W ob inb (M + x)"
      by (auto simp: J_def)
    have "(M + Suc x) * k \<le> (M + W) * k" using x by (intro mult_le_mono1) simp
    then have b: "(M + x) * k + k \<le> length inb" "(M + x) * k + k \<le> length ob"
      using len lo by (simp_all add: algebra_simps)
    from uau_pixel_ok[OF b lp] obtain prev' ob' where
      r: "uau_pixel k inb ((M + x) * k, (M + x) * k, prev, ob)
            = Some ((M + x) * k + k, (M + x) * k + k, prev', ob')"
      and lo': "length ob' = length ob" and lp': "length prev' = k"
      and new: "\<forall>c<k. ob' ! ((M + x) * k + c) = inb ! ((M + x) * k + c) + prev ! c"
      and newp: "\<forall>c<k. prev' ! c = inb ! ((M + x) * k + c) + prev ! c"
      and old: "\<forall>j<(M + x) * k. ob' ! j = ob ! j" by blast
    have "(M + x) mod W = (M mod W + x) mod W" by (simp add: mod_add_left_eq)
    then have modx: "(M + x) mod W = 0 \<longleftrightarrow> x = 0"
      using M x by simp
    have f1: "filtered k W ob' inb (M + x)"
      using fo old by (rule filtered_agree_img)
    have "filtered k W ob' inb (Suc (M + x))"
      unfolding filtered_def
    proof (intro allI impI)
      fix m c assume m: "m < Suc (M + x)" and c: "c < k"
      show "inb ! (m * k + c) = ob' ! (m * k + c) - (if m mod W = 0 then 0 else ob' ! ((m - 1) * k + c))"
      proof (cases "m = M + x")
        case True
        have "x \<noteq> 0 \<Longrightarrow> (M + x - 1) * k + c < (M + x) * k" using c by (intro idx_lt) simp_all
        then have "x \<noteq> 0 \<Longrightarrow> ob' ! ((M + x - 1) * k + c) = ob ! ((M + x - 1) * k + c)"
          using old by simp
        then show ?thesis using True new pv c modx by auto
      next
        case False
        then have "m < M + x" using m by simp
        then show ?thesis using f1 c by (simp add: filtered_def)
      qed
    qed
    moreover have "\<forall>c<k. prev' ! c = ob' ! ((M + x) * k + c)"
      using newp new by simp
    ultimately have "J (Suc x) ((M + x) * k + k, (M + x) * k + k, prev', ob')"
      using lo lo' lp' by (simp add: J_def)
    then show "\<exists>t'. uau_pixel k inb t = Some t' \<and> J (Suc x) t'"
      using r ip by simp
  qed
  then show ?thesis by (auto simp: uau_row_def J_def)
qed

lemma UnpackAndUnfilter_sound:
  assumes len: "H * W * k \<le> length inb" "H * W * k \<le> length (pixels d)"
    and d: "HeightPixels d = H" "WidthPixels d = W"
  shows "\<exists>out'. UnpackAndUnfilter k inb d = Some out' \<and> length out' = length (pixels d)
           \<and> filtered k W out' inb (H * W)"
proof -
  define K where "K = (\<lambda>y (t :: nat \<times> nat \<times> byte list). case t of (ip, op, ob) \<Rightarrow>
      ip = y * W * k \<and> op = y * W * k \<and> length ob = length (pixels d)
    \<and> filtered k W ob inb (y * W))"
  have "\<exists>s'. for_upto H (\<lambda>y. uau_row k W inb) (0, 0, pixels d) = Some s' \<and> K H s'"
  proof (rule for_upto_rule)
    show "K 0 (0, 0, pixels d)" by (simp add: K_def filtered_def)
  next
    fix y t assume y: "y < H" and t: "K y t"
    obtain ip op ob where [simp]: "t = (ip, op, ob)" by (cases t)
    from t have ip: "ip = y * W * k" "op = y * W * k"
      and lo: "length ob = length (pixels d)" and fo: "filtered k W ob inb (y * W)"
      by (auto simp: K_def)
    have le: "Suc y * W \<le> H * W" using y by (intro mult_le_mono1) simp
    then have "Suc y * W * k \<le> H * W * k" by (rule mult_le_mono1)
    then have b: "(y * W + W) * k \<le> length inb" "(y * W + W) * k \<le> length ob"
      using len lo by (simp_all add: algebra_simps)
    from uau_row_sound[OF b _ fo] obtain ob' where
      "uau_row k W inb (y * W * k, y * W * k, ob) = Some ((y * W + W) * k, (y * W + W) * k, ob')"
      "length ob' = length ob" "filtered k W ob' inb (y * W + W)" by auto
    then show "\<exists>t'. uau_row k W inb t = Some t' \<and> K (Suc y) t'"
      using ip lo by (simp add: K_def add.commute)
  qed
  then show ?thesis by (auto simp: UnpackAndUnfilter_def K_def d)
qed

lemma flat_frame_format:
  "pixelBytes_of (flat_frame w h v) = 1" "BytesPerChannel (flat_frame w h v) = 1"
  "Channels (flat_frame w h v) = 1"
  by (simp_all add: pixelBytes_of_def flat_frame_def u32_def)

lemma saturated_gray:
  "\<exists>src out.
      ZPNG_CompressVideoToBuffer store_coder (Some (flat_frame 2 502 0)) (flat_frame 2 502 200)
          \<lparr>Data = None, Bytes = 0\<rparr>
        = Some (0, \<lparr>Data = Some (ZPNG_Header LittleEndian ZPNG_HEADER_MAGIC (flat_frame 2 502 200) @ src @ []),
                    Bytes = 8 + length src\<rparr>)
    \<and> ZPNG_DecompressVideo store_coder (Some (flat_frame 2 502 0))
          \<lparr>Data = Some (ZPNG_Header LittleEndian ZPNG_HEADER_MAGIC (flat_frame 2 502 200) @ src @ []),
           Bytes = 8 + length src\<rparr>
        = Some (decoded_image (flat_frame 2 502 200) 1 out)
    \<and> out ! 1 = 144"
proof -
  define cur where "cur = flat_frame 2 502 200"
  define ref where "ref = flat_frame 2 502 0"
  have px: "pixels cur = replicate 1004 200" "pixels ref = replicate 1004 0"
    by (simp_all add: cur_def ref_def)
  have dm: "HeightPixels cur = 502" "WidthPixels cur = 2"
    by (simp_all add: cur_def)
  have fm: "pixelBytes_of cur = 1" "BytesPerChannel cur = 1" "Channels cur = 1"
    by (simp_all add: cur_def flat_frame_format)
  have bc: "byteCount_of cur = 1004"
    by (simp add: byteCount_of_def pixelCount_of_def fm dm u32_def)
  have st: "byte_order store_coder = LittleEndian" "ZSTD_compressBound store_coder n = n"
    "\<And>cap s. length s \<le> cap \<Longrightarrow> ZSTD_compress store_coder cap s = Some s"
    "\<And>cap s. length s \<le> cap \<Longrightarrow> ZSTD_decompress store_coder cap s = Some s" for n
    by (simp_all add: store_coder_def)
  let ?zeros = "replicate 2004 (0 :: byte)"
  have e: "esc_count (pixels cur) (pixels ref) (502 * 2 * 1) = 1004"
    using esc_count_flat[of 1004 2 502] by (simp add: cur_def ref_def)
  have "\<exists>ob. length ob = length ?zeros
           \<and> PackAndFilterVideo 1 ref cur ?zeros
                = map_option (\<lambda>out'. (out', - 1)) (PackAndFilterXGGY cur ob)"
    using PackAndFilterVideo_ok[of cur 502 2 1 ref ?zeros] e by (simp add: dm px)
  then obtain ob where lob: "length ob = 2004"
    and pv: "PackAndFilterVideo 1 ref cur ?zeros = map_option (\<lambda>out'. (out', - 1)) (PackAndFilterXGGY cur ob)"
    by auto
  have "\<exists>out'. PackAndFilterXGGY cur ob = Some out' \<and> length out' = length ob
           \<and> bayer 1 (251 * 1) (pixels cur) out' 251"
    by (rule PackAndFilterXGGY_ok) (simp_all add: dm px lob)
  then obtain packed where xg: "PackAndFilterXGGY cur ob = Some packed" and lpk: "length packed = 2004"
    and bay: "bayer 1 (251 * 1) (pixels cur) packed 251"
    using lob by auto
  have p0: "packed ! 0 = 200"
    using bay[unfolded bayer_def, rule_format, of 0] by (simp add: xggy_pair_def px)
  have p1: "packed ! 1 = 200"
    using bay[unfolded bayer_def, rule_format, of 1] by (simp add: xggy_pair_def px)
  have pv': "PackAndFilterVideo 1 ref cur ?zeros = Some (packed, - 1)"
    unfolding pv xg by simp
  have pk: "pack_pass (Some ref) cur (replicate (u32 (byteCount_of cur + 1000)) 0) = Some (packed, - 1)"
    using pv' by (simp add: pack_pass_def fm bc u32_def)
  define src where "src = take 1004 packed"
  have ls: "length src = 1004" using lpk by (simp add: src_def)
  have enc: "ZPNG_CompressVideoToBuffer store_coder (Some ref) cur \<lparr>Data = None, Bytes = 0\<rparr>
       = Some (0, \<lparr>Data = Some (ZPNG_Header (byte_order store_coder)
                         (if Some ref \<noteq> None \<and> (- 1 :: int) \<ge> 0
                          then ZPNG_VIDEO_HEADER_MAGIC else ZPNG_HEADER_MAGIC) cur
                      @ src @ drop (8 + length src) (replicate 1012 0)),
                   Bytes = u32 (8 + u32 (length src))\<rparr>)"
  proof (rule compress_with[where n = 1004 and packing = packed])
    show "pixelBytes_of cur \<le> 8" by (simp add: fm)
    show "Bytes \<lparr>Data = None, Bytes = 0\<rparr> = 0
          \<or> u32 (8 + u32 (ZSTD_compressBound store_coder (byteCount_of cur)))
               \<le> Bytes \<lparr>Data = None, Bytes = 0\<rparr>" by simp
    show "(if Bytes \<lparr>Data = None, Bytes = 0\<rparr> = 0
           then Some (replicate (u32 (8 + u32 (ZSTD_compressBound store_coder (byteCount_of cur)))) 0)
           else Data \<lparr>Data = None, Bytes = 0\<rparr>) = Some (replicate 1012 0)"
      by (simp add: st bc u32_def)
    show "pack_pass (Some ref) cur (replicate (u32 (byteCount_of cur + 1000)) 0) = Some (packed, - 1)"
      by (rule pk)
    show "1004 = u32 (byteCount_of cur + (if (- 1 :: int) \<ge> 0 then nat (- 1) else 0))"
      by (simp add: bc u32_def)
    show "1004 \<le> length packed" by (simp add: lpk)
    show "ZSTD_compress store_coder (u32 (ZSTD_compressBound store_coder (byteCount_of cur)))
            (take 1004 packed) = Some src"
      using ls by (simp add: st bc u32_def src_def)
    show "8 + length src \<le> length (replicate 1012 (0 :: byte))" by (simp add: ls)
  qed
  have enc': "ZPNG_CompressVideoToBuffer store_coder (Some ref) cur \<lparr>Data = None, Bytes = 0\<rparr>
       = Some (0, \<lparr>Data = Some (ZPNG_Header LittleEndian ZPNG_HEADER_MAGIC cur @ src @ []),
                   Bytes = 8 + length src\<rparr>)"
    unfolding enc by (simp add: st ls u32_def)
  let ?inb = "src @ replicate (u32 (byteCount_of cur + 1000) - length src) 0"
  let ?d' = "decoded_image cur 1 (replicate (byteCount_of cur) 0)"
  have "\<exists>out'. UnpackAndUnfilter 1 ?inb ?d' = Some out' \<and> length out' = length (pixels ?d')
           \<and> filtered 1 2 out' ?inb (502 * 2)"
    by (rule UnpackAndUnfilter_sound) (simp_all add: decoded_image_def pixels_def bc ls dm u32_def)
  then obtain out where un: "UnpackAndUnfilter 1 ?inb ?d' = Some out"
    and fl: "filtered 1 2 out ?inb (502 * 2)" by blast
  have i0: "?inb ! 0 = 200" "?inb ! 1 = 200"
    using p0 p1 ls lpk by (simp_all add: nth_append src_def)
  have o0: "out ! 0 = 200"
    using fl[unfolded filtered_def, rule_format, of 0 0] i0 by simp
  have "?inb ! 1 = out ! 1 - out ! 0"
    using fl[unfolded filtered_def, rule_format, of 1 0] by simp
  then have o1: "out ! 1 = 144" using i0 o0 by simp
  have unp: "unpack_pass (Some ref) ?inb ?d' = Some out"
    using un by (simp add: unpack_pass_def decoded_image_def pixelBytes_of_def fm u32_def)
  have dec: "ZPNG_DecompressVideo store_coder (Some ref)
           \<lparr>Data = Some (ZPNG_Header (byte_order store_coder) ZPNG_HEADER_MAGIC cur @ src @ []),
            Bytes = 8 + length src\<rparr>
         = Some (decoded_image cur 1 out)"
  proof (rule decompress_framed[where src = src])
    show "WidthPixels cur < 2 ^ 16" "HeightPixels cur < 2 ^ 16" "Channels cur < 2 ^ 8"
      "BytesPerChannel cur < 2 ^ 8" by (simp_all add: dm fm)
    show "ZPNG_HEADER_MAGIC = ZPNG_HEADER_MAGIC \<and> (1 :: nat) = 1
           \<or> ZPNG_HEADER_MAGIC = ZPNG_VIDEO_HEADER_MAGIC \<and> (1 :: nat) = 0 \<and> Some ref \<noteq> None"
      by simp
    show "ZSTD_decompress store_coder (u32 (byteCount_of cur + 1000)) src = Some src"
      by (simp add: st bc u32_def ls)
    show "length src \<le> u32 (byteCount_of cur + 1000)" by (simp add: bc u32_def ls)
    show "unpack_pass (Some ref) ?inb ?d' = Some out" by (rule unp)
  qed
  show ?thesis
    using enc' dec o1 unfolding st cur_def ref_def by blast
qed

text \<open>
  C4 fails on the code. A gray 2x502 frame that differs from its reference by 200 in
  every byte saturates the inter filter. The buffer carries the intra magic and decodes
  with \<open>is_intra = 1\<close>, but the fallback packed the frame with the Bayer filter and the
  decoder, which picks the intra filter by format, undoes the generic row filter: the
  second byte comes back as 144 instead of 200.
\<close>

theorem C4_fallback_failing_input:
  "map_option (\<lambda>r. (IsIFrame r, pixels r ! 1))
      (decode_of_encode store_coder (flat_frame 2 502 0) (flat_frame 2 502 200)) = Some (1, 144)
   \<and> pixels (flat_frame 2 502 200) ! 1 = 200"
proof -
  from saturated_gray obtain src out where
    "ZPNG_CompressVideoToBuffer store_coder (Some (flat_frame 2 502 0)) (flat_frame 2 502 200)
          \<lparr>Data = None, Bytes = 0\<rparr>
        = Some (0, \<lparr>Data = Some (ZPNG_Header LittleEndian ZPNG_HEADER_MAGIC (flat_frame 2 502 200) @ src @ []),
                    Bytes = 8 + length src\<rparr>)"
    "ZPNG_DecompressVideo store_coder (Some (flat_frame 2 502 0))
          \<lparr>Data = Some (ZPNG_Header LittleEndian ZPNG_HEADER_MAGIC (flat_frame 2 502 200) @ src @ []),
           Bytes = 8 + length src\<rparr>
        = Some (decoded_image (flat_frame 2 502 200) 1 out)"
    "out ! 1 = 144" by blast
  then have "map_option (\<lambda>r. (IsIFrame r, pixels r ! 1))
      (decode_of_encode store_coder (flat_frame 2 502 0) (flat_frame 2 502 200)) = Some (1, 144)"
    by (simp add: decode_of_encode_def decoded_image_def pixels_def)
  moreover have "pixels (flat_frame 2 502 200) ! 1 = 200" by simp
  ultimately show ?thesis by blast
qed

text \<open>
  C2 fails on the code, on the same pair: the frame decoded from the video encoding of
  the current frame is not the current frame.
\<close>

theorem C2_video_round_trip_failing_input:
  "map_option pixels (decode_of_encode store_coder (flat_frame 2 502 0) (flat_frame 2 502 200))
     \<noteq> Some (pixels (flat_frame 2 502 200))"
proof -
  from saturated_gray obtain src out where
    "ZPNG_CompressVideoToBuffer store_coder (Some (flat_frame 2 502 0)) (flat_frame 2 502 200)
          \<lparr>Data = None, Bytes = 0\<rparr>
        = Some (0, \<lparr>Data = Some (ZPNG_Header LittleEndian ZPNG_HEADER_MAGIC (flat_frame 2 502 200) @ src @ []),
                    Bytes = 8 + length src\<rparr>)"
    "ZPNG_DecompressVideo store_coder (Some (flat_frame 2 502 0))
          \<lparr>Data = Some (ZPNG_Header LittleEndian ZPNG_HEADER_MAGIC (flat_frame 2 502 200) @ src @ []),
           Bytes = 8 + length src\<rparr>
        = Some (decoded_image (flat_frame 2 502 200) 1 out)"
    and o: "out ! 1 = 144" by blast
  then have "map_option pixels (decode_of_encode store_coder (flat_frame 2 502 0) (flat_frame 2 502 200))
          = Some out"
    by (simp add: decode_of_encode_def decoded_image_def pixels_def)
  moreover have "out \<noteq> pixels (flat_frame 2 502 200)"
  proof
    assume "out = pixels (flat_frame 2 502 200)"
    then have "out ! 1 = 200" by simp
    then show False using o by simp
  qed
  ultimately show ?thesis by auto
qed

end
